theory Spec2Isabelle
  imports Complex_Main "HOL-Library.Word" "HOL-Library.Multiset"
begin

unbundle bit_operations_syntax

section \<open>Numbers and the random number generator\<close>

text \<open>
  The simulator computes on JavaScript numbers, which are IEEE doubles.  They are embedded
  as reals, and the arithmetic of the samplers and of the engine is exact here: the control
  flow, the counters, the order of the events and the signs of the delays are what the
  theorems about them state, and none of these statements turns on a rounding (the one
  section that takes the sums of the holds exactly says so).  Two
  operations are rounded as the source rounds them, because their result decides what is
  stated: the product that \<open>percentile\<close> floors to an index, and the counter of
  \<open>mulberry32\<close>.  NaN and the infinities are outside the model.  Where the source
  returns \<open>Infinity\<close> on purpose (\<open>sampleInterarrival\<close>, \<open>gammaQuantile\<close>) the model returns
  \<open>None\<close> for it, and where the source reads \<open>Math.log(0)\<close> the comparison is written out.
\<close>

subsection \<open>Rounding to a double\<close>

text \<open>
  \<open>to_double x\<close> is the double nearest to \<open>x\<close>, ties to the even significand: with
  \<open>2^e \<le> |x| < 2^(e+1)\<close> the doubles around \<open>x\<close> are the multiples of \<open>2^(e-52)\<close>, and below
  \<open>2^-1022\<close> the multiples of \<open>2^-1074\<close>.  Overflow to an infinity (from \<open>2^1024\<close> on) is not
  modelled.
\<close>

definition binade :: "real \<Rightarrow> int" where
  "binade x = \<lfloor>log 2 \<bar>x\<bar>\<rfloor>"

definition round_half_even :: "real \<Rightarrow> int" where
  "round_half_even y =
     (let f = \<lfloor>y\<rfloor> in
      if y - of_int f < 1 / 2 then f
      else if 1 / 2 < y - of_int f then f + 1
      else if even f then f else f + 1)"

definition ulp_of :: "real \<Rightarrow> real" where
  "ulp_of x = 2 powr (of_int (max (binade x) (- 1022)) - 52)"

definition to_double :: "real \<Rightarrow> real" where
  "to_double x = (if x = 0 then 0 else of_int (round_half_even (x / ulp_of x)) * ulp_of x)"

subsection \<open>The generator\<close>

text \<open>
  An \<open>RNG\<close> is a closure \<open>() => number\<close>.  It is embedded as the sequence of the numbers
  its successive calls return; a call takes the head and leaves the tail.
\<close>

type_synonym rng = "nat \<Rightarrow> real"

definition draw :: "rng \<Rightarrow> real \<times> rng" where
  "draw g = (g 0, \<lambda>n. g (Suc n))"

text \<open>\<open>Math.imul\<close> is multiplication modulo \<open>2^32\<close>; \<open>>>>\<close> is the logical shift.\<close>

definition imul :: "32 word \<Rightarrow> 32 word \<Rightarrow> 32 word" where
  "imul a b = a * b"

definition rotl13 :: "32 word \<Rightarrow> 32 word" where
  "rotl13 h = push_bit 13 h OR drop_bit 19 h"

fun xmur3_absorb :: "32 word \<Rightarrow> string \<Rightarrow> 32 word" where
  "xmur3_absorb h [] = h"
| "xmur3_absorb h (ch # rest) =
     xmur3_absorb (rotl13 (imul (h XOR of_nat (of_char ch)) 3432918353)) rest"

definition xmur3_next :: "32 word \<Rightarrow> 32 word" where
  "xmur3_next h =
     (let h1 = imul (h XOR drop_bit 16 h) 2246822507;
          h2 = imul (h1 XOR drop_bit 13 h1) 3266489909
      in h2 XOR drop_bit 16 h2)"

definition xmur3 :: "string \<Rightarrow> 32 word" where
  "xmur3 str = xmur3_next (xmur3_absorb (1779033703 XOR of_nat (length str)) str)"

text \<open>
  \<open>mulberry32\<close> keeps a counter \<open>t\<close>, a number that starts at the seed and that every call
  advances by \<open>0x6d2b79f5\<close> with \<open>t += 0x6d2b79f5\<close>: a double sum, exact until \<open>t\<close> passes
  \<open>2^53\<close> and rounded from there on.  Every use of \<open>t\<close> is through a 32-bit operation,
  which reads the integer \<open>t\<close> modulo \<open>2^32\<close>.
\<close>

definition mulberry32_out :: "32 word \<Rightarrow> real" where
  "mulberry32_out t =
     (let r = imul (t XOR drop_bit 15 t) (t OR 1);
          r2 = r XOR (r + imul (r XOR drop_bit 7 r) (r OR 61))
      in real (unat (r2 XOR drop_bit 14 r2)) / 4294967296)"

fun mulberry32_counter :: "real \<Rightarrow> nat \<Rightarrow> real" where
  "mulberry32_counter t 0 = t"
| "mulberry32_counter t (Suc n) = to_double (mulberry32_counter t n + 1831565813)"

definition mulberry32 :: "32 word \<Rightarrow> rng" where
  "mulberry32 seed =
     (\<lambda>n. mulberry32_out (word_of_int \<lfloor>mulberry32_counter (real (unat seed)) (Suc n)\<rfloor>))"

definition createRng :: "string \<Rightarrow> rng" where
  "createRng seed = mulberry32 (xmur3 seed)"

section \<open>Sampling\<close>

datatype DistributionType = lognormal | gamma

record DistributionSpec =
  dtype :: DistributionType
  mean :: real
  p95 :: real

definition normalSample :: "rng \<Rightarrow> real \<times> rng" where
  "normalSample g =
     (case draw g of (r1, g1) \<Rightarrow>
      case draw g1 of (r2, g2) \<Rightarrow>
        (sqrt (- 2 * ln (max r1 (1 / 10 ^ 12))) * cos (2 * pi * max r2 (1 / 10 ^ 12)), g2))"

record LognormalParams =
  mu :: real
  sigma :: real

definition lognormalParamsFromMeanP95 :: "real \<Rightarrow> real \<Rightarrow> LognormalParams" where
  "lognormalParamsFromMeanP95 m p =
     (let z = 1.6448536269514722;
          lnMean = ln m;
          lnP95 = ln p;
          a = 0.5;
          b = - z;
          c = lnP95 - lnMean;
          disc = b * b - 4 * a * c;
          sg = (- b + sqrt (max disc (1 / 10 ^ 12))) / (2 * a);
          m0 = lnMean - 0.5 * sg * sg
      in \<lparr> mu = m0, sigma = sg \<rparr>)"

definition sampleLognormal :: "rng \<Rightarrow> real \<Rightarrow> real \<Rightarrow> real \<times> rng" where
  "sampleLognormal g m p =
     (if m \<le> 0 \<or> p \<le> 0 then (0, g)
      else let ps = lognormalParamsFromMeanP95 m p in
           case normalSample g of (n, g1) \<Rightarrow> (exp (mu ps + sigma ps * n), g1))"

subsection \<open>Fitting a gamma distribution\<close>

definition lanczos_p :: "real list" where
  "lanczos_p = [676.5203681218851, -1259.1392167224028, 771.3234287776531,
     -176.6150291621406, 12.507343278686905, -0.13857109526572012,
     9.984369578019571 / 10 ^ 6, 1.5056327351493116 / 10 ^ 7]"

function gammaLn :: "real \<Rightarrow> real" where
  "gammaLn z =
     (if z < 0.5 then ln pi - ln (sin (pi * z)) - gammaLn (1 - z)
      else let z1 = z - 1;
               x = foldl (\<lambda>x i. x + lanczos_p ! i / (z1 + real i + 1))
                     0.99999999999980993 [0 ..< length lanczos_p];
               t = z1 + real (length lanczos_p) - 0.5
           in 0.5 * ln (2 * pi) + (z1 + 0.5) * ln t - t + ln x)"
  by pat_completeness auto
termination
  by (relation "measure (\<lambda>z. if z < 0.5 then 1 else 0)") auto

declare gammaLn.simps [simp del]

text \<open>The series loop, \<open>n\<close> running from 1 to 100 with its early exit.\<close>

function gammaPSeries_loop :: "nat \<Rightarrow> real \<Rightarrow> real \<Rightarrow> real \<Rightarrow> real \<Rightarrow> real" where
  "gammaPSeries_loop n x ap del sm =
     (if n \<le> 100 then
        let ap1 = ap + 1; del1 = del * (x / ap1); sm1 = sm + del1 in
        if \<bar>del1\<bar> < \<bar>sm1\<bar> * (3 / 10 ^ 8) then sm1
        else gammaPSeries_loop (n + 1) x ap1 del1 sm1
      else sm)"
  by pat_completeness auto
termination
  by (relation "measure (\<lambda>(n, x, ap, del, sm). 101 - n)") auto

declare gammaPSeries_loop.simps [simp del]

definition gammaPSeries :: "real \<Rightarrow> real \<Rightarrow> real" where
  "gammaPSeries a x =
     gammaPSeries_loop 1 x a (1 / a) (1 / a) * exp (- x + a * ln x - gammaLn a)"

definition FPMIN :: real where
  "FPMIN = 1 / 10 ^ 30"

function gammaPContinuedFraction_loop ::
  "nat \<Rightarrow> real \<Rightarrow> real \<Rightarrow> real \<Rightarrow> real \<Rightarrow> real \<Rightarrow> real" where
  "gammaPContinuedFraction_loop i a b c d h =
     (if i \<le> 100 then
        let an = - real i * (real i - a);
            b1 = b + 2;
            d1 = an * d + b1;
            d2 = (if \<bar>d1\<bar> < FPMIN then FPMIN else d1);
            c1 = b1 + an / c;
            c2 = (if \<bar>c1\<bar> < FPMIN then FPMIN else c1);
            d3 = 1 / d2;
            del = d3 * c2;
            h1 = h * del
        in if \<bar>del - 1\<bar> < 3 / 10 ^ 8 then h1
           else gammaPContinuedFraction_loop (i + 1) a b1 c2 d3 h1
      else h)"
  by pat_completeness auto
termination
  by (relation "measure (\<lambda>(i, a, b, c, d, h). 101 - i)") auto

declare gammaPContinuedFraction_loop.simps [simp del]

definition gammaPContinuedFraction :: "real \<Rightarrow> real \<Rightarrow> real" where
  "gammaPContinuedFraction a x =
     (let b = x + 1 - a; c = 1 / FPMIN; d = 1 / b in
      exp (- x + a * ln x - gammaLn a) * gammaPContinuedFraction_loop 1 a b c d d)"

definition regularizedGammaP :: "real \<Rightarrow> real \<Rightarrow> real" where
  "regularizedGammaP a x =
     (if x \<le> 0 then 0
      else if x < a + 1 then gammaPSeries a x
      else 1 - gammaPContinuedFraction a x)"

fun gammaQuantile_loop :: "nat \<Rightarrow> real \<Rightarrow> real \<Rightarrow> real \<Rightarrow> real \<Rightarrow> real \<Rightarrow> real \<times> real" where
  "gammaQuantile_loop 0 p shape scale low high = (low, high)"
| "gammaQuantile_loop (Suc k) p shape scale low high =
     (let mid = 0.5 * (low + high);
          cdf = regularizedGammaP shape (mid / scale)
      in if cdf < p then gammaQuantile_loop k p shape scale mid high
         else gammaQuantile_loop k p shape scale low mid)"

text \<open>\<open>None\<close> stands for the \<open>Infinity\<close> the source returns when \<open>p >= 1\<close>.\<close>

definition gammaQuantile :: "real \<Rightarrow> real \<Rightarrow> real \<Rightarrow> real option" where
  "gammaQuantile p shape scale =
     (if p \<le> 0 then Some 0
      else if p \<ge> 1 then None
      else let mn = shape * scale in
           case gammaQuantile_loop 60 p shape scale 0 (mn * 10 + 10) of
             (low, high) \<Rightarrow> Some (0.5 * (low + high)))"

record GammaParams =
  shape :: real
  scale :: real

fun gammaParams_loop :: "nat \<Rightarrow> real \<Rightarrow> real \<Rightarrow> real \<Rightarrow> real \<Rightarrow> real \<times> real" where
  "gammaParams_loop 0 m p low high = (low, high)"
| "gammaParams_loop (Suc k) m p low high =
     (let mid = 0.5 * (low + high);
          sc = m / mid
      in if (case gammaQuantile 0.95 mid sc of None \<Rightarrow> False | Some q95 \<Rightarrow> q95 < p)
         then gammaParams_loop k m p low mid
         else gammaParams_loop k m p mid high)"

definition gammaParamsFromMeanP95 :: "real \<Rightarrow> real \<Rightarrow> GammaParams" where
  "gammaParamsFromMeanP95 m p =
     (if m \<le> 0 \<or> p \<le> 0 then \<lparr> shape = 1, scale = 1 \<rparr>
      else case gammaParams_loop 60 m p 0.2 20 of
             (low, high) \<Rightarrow> let sh = 0.5 * (low + high) in \<lparr> shape = sh, scale = m / sh \<rparr>)"

subsection \<open>Drawing samples\<close>

text \<open>
  The accept/reject loop of \<open>sampleGamma\<close> has no bound in the source, so it is a partial
  function: \<open>None\<close> is the run that never leaves the loop.  \<open>Math.log(u)\<close> is minus
  infinity at \<open>u = 0\<close>, which is below every right-hand side.
\<close>

partial_function (option) sampleGamma_loop ::
  "real \<Rightarrow> real \<Rightarrow> real \<Rightarrow> rng \<Rightarrow> (real \<times> rng) option" where
  "sampleGamma_loop d c sc g =
     (case normalSample g of (x, g1) \<Rightarrow>
        let v = 1 + c * x in
        if v \<le> 0 then sampleGamma_loop d c sc g1
        else let v3 = v * v * v in
          case draw g1 of (u, g2) \<Rightarrow>
            if u < 1 - 0.0331 * x ^ 4 then Some (sc * d * v3, g2)
            else if u = 0 \<or> (0 < u \<and> ln u < 0.5 * x * x + d * (1 - v3 + ln v3))
              then Some (sc * d * v3, g2)
            else sampleGamma_loop d c sc g2)"

definition sampleGamma_main :: "rng \<Rightarrow> real \<Rightarrow> real \<Rightarrow> (real \<times> rng) option" where
  "sampleGamma_main g sh sc =
     (let d = sh - 1 / 3; c = 1 / sqrt (9 * d) in sampleGamma_loop d c sc g)"

text \<open>
  For a shape below 1 the source calls itself with \<open>shape + 1\<close>, which is at least 1
  there: the inner call runs the loop directly.
\<close>

definition sampleGamma :: "rng \<Rightarrow> real \<Rightarrow> real \<Rightarrow> (real \<times> rng) option" where
  "sampleGamma g sh sc =
     (if sh \<le> 0 then Some (0, g)
      else if sh < 1 then
        (case draw g of (r, g1) \<Rightarrow>
           let u = max r (1 / 10 ^ 12) in
           (case sampleGamma_main g1 (sh + 1) sc of
              None \<Rightarrow> None
            | Some (y, g2) \<Rightarrow> Some (y * u powr (1 / sh), g2)))
      else sampleGamma_main g sh sc)"

definition sampleDistribution :: "rng \<Rightarrow> DistributionSpec \<Rightarrow> (real \<times> rng) option" where
  "sampleDistribution g spec =
     (if dtype spec = gamma then
        let ps = gammaParamsFromMeanP95 (mean spec) (p95 spec) in
        sampleGamma g (shape ps) (scale ps)
      else Some (sampleLognormal g (mean spec) (p95 spec)))"

subsection \<open>Summaries\<close>

text \<open>
  \<open>percentile\<close> floors the product \<open>p * (sorted.length - 1)\<close>, a double product; the
  length is below \<open>2^32\<close> in the source, so the difference is exact.
\<close>

definition percentile :: "real list \<Rightarrow> real \<Rightarrow> real" where
  "percentile vals p =
     (if length vals = 0 then 0
      else let sorted = sort vals;
               idx = min (int (length sorted) - 1)
                       (max 0 \<lfloor>to_double (p * (real (length sorted) - 1))\<rfloor>)
           in sorted ! nat idx)"

definition average :: "real list \<Rightarrow> real" where
  "average vals =
     (if length vals = 0 then 0 else foldl (\<lambda>a b. a + b) 0 vals / real (length vals))"


section \<open>Settlement\<close>

record StellarSpec =
  ledgerCloseMean :: real
  ledgerJitter :: real
  submissionDelay :: DistributionSpec
  inclusionProbability :: real
  baseFee :: real
  feeBumpFactor :: real
  maxRetries :: real
  backoffBaseMs :: real
  backoffMultiplier :: real
  maxSettleWindowSec :: real

record OutageSpec =
  outage_enabled :: bool
  startHour :: real
  durationHours :: real
  submissionDelayMultiplier :: real
  inclusionProbabilityMultiplier :: real

text \<open>\<open>retries\<close> starts at 0 and only ever grows by one: a natural number.\<close>

record SettlementResult =
  confirmed :: bool
  sr_timeSec :: real
  sr_retries :: nat
  gaveUp :: bool

definition sampleLedgerInterval :: "rng \<Rightarrow> real \<Rightarrow> real \<Rightarrow> real \<times> rng" where
  "sampleLedgerInterval g mn jitter =
     (if jitter \<le> 0 then (mn, g)
      else case draw g of (r, g1) \<Rightarrow> (max 0.1 (mn + (r * 2 - 1) * jitter), g1))"

text \<open>
  The retry loop of \<open>simulateSettlement\<close>.  Its arguments are the loop variables
  \<open>timeSec\<close> and \<open>retries\<close>; \<open>passes\<close> is not in the source: it counts the passes
  through the loop body and is returned beside the result.  The loop ends because
  \<open>retries\<close> grows by one on every pass and the pass with \<open>retries >= maxRetries\<close>
  returns.
\<close>

function settle_loop ::
  "StellarSpec \<Rightarrow> real \<Rightarrow> rng \<Rightarrow> real \<Rightarrow> nat \<Rightarrow> nat \<Rightarrow> SettlementResult \<times> nat \<times> rng" where
  "settle_loop spec inclusionProb g timeSec retries passes =
     (case sampleLedgerInterval g (ledgerCloseMean spec) (ledgerJitter spec) of (interval, g1) \<Rightarrow>
      case draw g1 of (r, g2) \<Rightarrow>
      case draw g2 of (r', g3) \<Rightarrow>
        let residual = r * interval;
            t1 = timeSec + residual
        in if r' < inclusionProb
           then (\<lparr> confirmed = True, sr_timeSec = t1, sr_retries = retries, gaveUp = False \<rparr>,
                 Suc passes, g3)
           else let t2 = t1 + (interval - residual) in
             if real retries \<ge> maxRetries spec
             then (\<lparr> confirmed = False, sr_timeSec = t2, sr_retries = retries, gaveUp = True \<rparr>,
                   Suc passes, g3)
             else let retries1 = retries + 1;
                      backoffMs = backoffBaseMs spec * backoffMultiplier spec ^ (retries1 - 1);
                      t3 = t2 + backoffMs / 1000
                  in if t3 > maxSettleWindowSec spec
                     then (\<lparr> confirmed = False, sr_timeSec = t3, sr_retries = retries1,
                             gaveUp = True \<rparr>, Suc passes, g3)
                     else settle_loop spec inclusionProb g3 t3 retries1 (Suc passes))"
  by pat_completeness auto
termination
  apply (relation "measure (\<lambda>(spec, p, g, t, retries, passes). nat \<lceil>maxRetries spec\<rceil> - retries)")
   apply simp
  apply simp
  apply linarith
  done

declare settle_loop.simps [simp del]


text \<open>
  \<open>simulateSettlement_run\<close> is \<open>simulateSettlement\<close> with the number of passes kept;
  \<open>None\<close> is the call whose draw of the submission delay never returns.
\<close>

definition simulateSettlement_run ::
  "rng \<Rightarrow> StellarSpec \<Rightarrow> real \<Rightarrow> OutageSpec \<Rightarrow> (SettlementResult \<times> nat \<times> rng) option" where
  "simulateSettlement_run g spec startTimeSec outage =
     (let outageStart = startHour outage * 3600;
          outageEnd = outageStart + durationHours outage * 3600;
          inOutage = (outage_enabled outage \<and> startTimeSec \<ge> outageStart
                        \<and> startTimeSec \<le> outageEnd)
      in case sampleDistribution g (submissionDelay spec) of
           None \<Rightarrow> None
         | Some (submissionDelayMs, g1) \<Rightarrow>
             let submissionDelaySec = (submissionDelayMs / 1000)
                    * (if inOutage then submissionDelayMultiplier outage else 1);
                 inclusionProb = min 0.999 (max 0 (inclusionProbability spec
                    * (if inOutage then inclusionProbabilityMultiplier outage else 1)))
             in Some (settle_loop spec inclusionProb g1 submissionDelaySec 0 0))"

definition simulateSettlement ::
  "rng \<Rightarrow> StellarSpec \<Rightarrow> real \<Rightarrow> OutageSpec \<Rightarrow> (SettlementResult \<times> rng) option" where
  "simulateSettlement g spec startTimeSec outage =
     map_option (\<lambda>(res, passes, g'). (res, g')) (simulateSettlement_run g spec startTimeSec outage)"

section \<open>Specifications\<close>

datatype Mode = wait_on_chain | offchain_hold

datatype LatencyMode = combined_mode | per_leg

record NetworkLatencySpec =
  nl_mode :: LatencyMode
  combined :: DistributionSpec
  terminalToNetwork :: DistributionSpec
  networkToIssuer :: DistributionSpec
  issuerToNetwork :: DistributionSpec
  networkToTerminal :: DistributionSpec

text \<open>\<open>users\<close> is the length of the per-user arrays and the bound of the user loop.\<close>

record UserModelSpec =
  users :: nat
  avgBalance :: real
  balanceDistribution :: DistributionSpec
  purchaseRate :: real
  avgTicket :: real
  ticketDistribution :: DistributionSpec
  burstinessEnabled :: bool
  burstinessProbability :: real
  burstinessMultiplier :: real

record HoldSpec =
  holds_enabled :: bool
  holdDurationSec :: real
  allowIncremental :: bool

record PreAuthSpec =
  preAuth_enabled :: bool
  completionDelay :: DistributionSpec
  completionMultiplierMean :: real
  completionMultiplierP95 :: real

record FraudSpec =
  fraud_enabled :: bool
  fraudAttemptRate :: real
  fraudAmountMultiplierMean :: real
  fraudAmountMultiplierP95 :: real
  autoDeclineRate :: real

record SpendLimitSpec =
  limits_enabled :: bool
  perTransactionLimit :: real
  perUserDailyLimit :: real
  perUserTimeslotLimit :: real
  timeslotMinutes :: real

record SimulationSpec =
  horizonHours :: real
  monteCarloRuns :: real
  seed :: string
  mode :: Mode
  authTimeoutSec :: real
  issuerProcessing :: DistributionSpec
  networkLatency :: NetworkLatencySpec
  stellar :: StellarSpec
  outage :: OutageSpec
  userModel :: UserModelSpec
  holds :: HoldSpec
  preAuth :: PreAuthSpec
  fraud :: FraudSpec
  spendLimits :: SpendLimitSpec
  settlementSlaSec :: real

section \<open>The event queue\<close>

datatype SimulationEventType = purchase | settlement | hold_expiry | completion

record SimulationEvent =
  ev_timeSec :: real
  ev_type :: SimulationEventType
  ev_userId :: nat
  ev_txnId :: nat
  ev_amount :: real
  relatedAmount :: "real option"
  ev_settlement :: "SettlementResult option"
  isFraud :: "bool option"

text \<open>\<open>MinHeap\<close> is a class around the array \<open>data\<close>; the array is the heap here.\<close>

type_synonym MinHeap = "SimulationEvent list"

function bubbleUp :: "MinHeap \<Rightarrow> nat \<Rightarrow> MinHeap" where
  "bubbleUp data index =
     (if index > 0 then
        let parent = (index - 1) div 2 in
        if ev_timeSec (data ! parent) \<le> ev_timeSec (data ! index) then data
        else bubbleUp (data[parent := data ! index, index := data ! parent]) parent
      else data)"
  by pat_completeness auto
termination
  by (relation "measure (\<lambda>(data, index). index)") auto

declare bubbleUp.simps [simp del]

function bubbleDown :: "MinHeap \<Rightarrow> nat \<Rightarrow> MinHeap" where
  "bubbleDown data index =
     (let len = length data;
          left = 2 * index + 1;
          right = 2 * index + 2;
          smallest1 = (if left < len \<and> ev_timeSec (data ! left) < ev_timeSec (data ! index)
                       then left else index);
          smallest = (if right < len \<and> ev_timeSec (data ! right) < ev_timeSec (data ! smallest1)
                      then right else smallest1)
      in if smallest = index then data
         else bubbleDown (data[smallest := data ! index, index := data ! smallest]) smallest)"
  by pat_completeness auto
termination
  by (relation "measure (\<lambda>(data, index). length data - index)") (auto split: if_splits)

declare bubbleDown.simps [simp del]

definition push :: "MinHeap \<Rightarrow> SimulationEvent \<Rightarrow> MinHeap" where
  "push data item = bubbleUp (data @ [item]) (length (data @ [item]) - 1)"

text \<open>\<open>pop\<close> returns the event and leaves the heap changed; \<open>None\<close> is \<open>undefined\<close>.\<close>

definition pop :: "MinHeap \<Rightarrow> (SimulationEvent \<times> MinHeap) option" where
  "pop data =
     (if length data = 0 then None
      else let top = data ! 0;
               lst = last data;
               data1 = butlast data
           in if length data1 > 0 then Some (top, bubbleDown (data1[0 := lst]) 0)
              else Some (top, data1))"

section \<open>One simulation run\<close>

record ExposureEvent =
  exp_userId :: nat
  exp_amount :: real
  startSec :: real
  endSec :: real

record TimeSeriesPoint =
  tp_timeSec :: real
  exposure :: real
  tp_approvals :: real
  tp_declines :: real
  tp_timeouts :: real

record AuthContext =
  requestTime :: real
  legsOut :: real
  issuerDone :: real
  ctx_amount :: real
  ctx_isFraud :: bool

record Hold =
  hold_userId :: nat
  hold_amount :: real
  approvalTime :: real

record Legs =
  t1 :: real
  t2 :: real
  t3 :: real
  t4 :: real

text \<open>
  \<open>None\<close> in the first component is the \<open>Infinity\<close> returned for a non-positive rate.
\<close>

definition sampleInterarrival ::
  "rng \<Rightarrow> real \<Rightarrow> bool \<Rightarrow> real \<Rightarrow> real \<Rightarrow> real option \<times> rng" where
  "sampleInterarrival g lambdaPerSec bursty burstProb burstMult =
     (case (if bursty
            then (case draw g of (r, g1) \<Rightarrow>
                    (if r < burstProb then lambdaPerSec * burstMult else lambdaPerSec, g1))
            else (lambdaPerSec, g)) of
        (rate, g1) \<Rightarrow>
          if rate \<le> 0 then (None, g1)
          else case draw g1 of (r, g2) \<Rightarrow> (Some (- ln (max r (1 / 10 ^ 12)) / rate), g2))"

definition sampleNetworkLegs :: "rng \<Rightarrow> NetworkLatencySpec \<Rightarrow> (Legs \<times> rng) option" where
  "sampleNetworkLegs g spec =
     (if nl_mode spec = combined_mode then
        (case sampleDistribution g (combined spec) of
           None \<Rightarrow> None
         | Some (rttMs, g1) \<Rightarrow>
             let half = rttMs / 2 in
             Some (\<lparr> t1 = half / 1000, t2 = 0, t3 = 0, t4 = half / 1000 \<rparr>, g1))
      else
        (case sampleDistribution g (terminalToNetwork spec) of
           None \<Rightarrow> None
         | Some (a, g1) \<Rightarrow>
        (case sampleDistribution g1 (networkToIssuer spec) of
           None \<Rightarrow> None
         | Some (b, g2) \<Rightarrow>
        (case sampleDistribution g2 (issuerToNetwork spec) of
           None \<Rightarrow> None
         | Some (c, g3) \<Rightarrow>
        (case sampleDistribution g3 (networkToTerminal spec) of
           None \<Rightarrow> None
         | Some (d, g4) \<Rightarrow>
             Some (\<lparr> t1 = a / 1000, t2 = b / 1000, t3 = c / 1000, t4 = d / 1000 \<rparr>, g4))))))"

subsection \<open>The time series\<close>

definition initTimeSeries :: "real \<Rightarrow> nat \<Rightarrow> TimeSeriesPoint list \<times> real" where
  "initTimeSeries horizonSec bins =
     (let binSize = horizonSec / real bins in
      (map (\<lambda>i. \<lparr> tp_timeSec = real i * binSize, exposure = 0, tp_approvals = 0,
                   tp_declines = 0, tp_timeouts = 0 \<rparr>) [0 ..< bins + 1],
       binSize))"

datatype SeriesKey = key_approvals | key_declines | key_timeouts

definition addTimeSeriesPoint ::
  "TimeSeriesPoint list \<Rightarrow> real \<Rightarrow> real \<Rightarrow> SeriesKey \<Rightarrow> TimeSeriesPoint list" where
  "addTimeSeriesPoint series binSize timeSec key =
     (let idx = nat (min (int (length series) - 1) (max 0 \<lfloor>timeSec / binSize\<rfloor>));
          pt = series ! idx
      in series[idx := (case key of
             key_approvals \<Rightarrow> pt\<lparr> tp_approvals := tp_approvals pt + 1 \<rparr>
           | key_declines \<Rightarrow> pt\<lparr> tp_declines := tp_declines pt + 1 \<rparr>
           | key_timeouts \<Rightarrow> pt\<lparr> tp_timeouts := tp_timeouts pt + 1 \<rparr>)])"

definition accumulateExposure ::
  "TimeSeriesPoint list \<Rightarrow> real \<Rightarrow> ExposureEvent \<Rightarrow> TimeSeriesPoint list" where
  "accumulateExposure series binSize event =
     (let startIdx = \<lfloor>startSec event / binSize\<rfloor>;
          endIdx = \<lceil>endSec event / binSize\<rceil>
      in foldl (\<lambda>sr i. sr[i := (sr ! i)\<lparr> exposure := exposure (sr ! i) + exp_amount event \<rparr>])
           series
           [nat (max 0 startIdx) ..< nat (min (int (length series)) (endIdx + 1))])"

subsection \<open>The state of a run\<close>

text \<open>
  The local variables of \<open>simulateOnce\<close> that its loops change.  The last three fields
  are not in the source; they record what the run did: the events in the order they were
  popped, the purchases skipped because nothing was available before any draw, and the
  fraud attempts declined before any latency was drawn.
\<close>

record RunState =
  rng_state :: rng
  events :: MinHeap
  balances :: "real list"
  holdTotals :: "real list"
  holdCounts :: "nat list"
  pendingHoldSamples :: "nat list"
  userDailySpend :: "nat \<Rightarrow> (int \<Rightarrow> real option) option"
  userTimeslotSpend :: "nat \<Rightarrow> (int \<Rightarrow> real option) option"
  approvals :: "nat list"
  declines :: "nat list"
  timeouts :: "nat list"
  authTimes :: "real list"
  settlementTimes :: "real list"
  retries :: "nat list"
  exposureEvents :: "ExposureEvent list"
  exposureDurations :: "real list"
  authContext :: "nat \<Rightarrow> AuthContext option"
  holdByTxn :: "nat \<Rightarrow> Hold option"
  overspendPrevented :: nat
  preAuthMismatchCount :: nat
  preAuthCount :: nat
  incrementalAuthSuccessCount :: nat
  incrementalAuthCount :: nat
  fraudAttempts :: nat
  fraudApprovals :: nat
  fraudExposureTotal :: real
  fraudApprovedAmount :: real
  fraudLossTotal :: real
  limitDeclines :: nat
  totalSpent :: real
  insufficientFundsSkipped :: nat
  series :: "TimeSeriesPoint list"
  popped :: "SimulationEvent list"
  skippedUnavailable :: nat
  autoDeclined :: nat

definition horizonSec :: "SimulationSpec \<Rightarrow> real" where
  "horizonSec spec = horizonHours spec * 3600"

definition binSize :: "SimulationSpec \<Rightarrow> real" where
  "binSize spec = snd (initTimeSeries (horizonSec spec) 120)"

subsection \<open>Spend limits\<close>

definition dayIndex :: "real \<Rightarrow> int" where
  "dayIndex timeSec = \<lfloor>timeSec / 86400\<rfloor>"

definition timeslotIndex :: "SimulationSpec \<Rightarrow> real \<Rightarrow> int" where
  "timeslotIndex spec timeSec =
     (let windowSec = max 1 (timeslotMinutes (spendLimits spec)) * 60 in \<lfloor>timeSec / windowSec\<rfloor>)"

definition getSpend :: "(nat \<Rightarrow> (int \<Rightarrow> real option) option) \<Rightarrow> nat \<Rightarrow> int \<Rightarrow> real" where
  "getSpend spend userId slot =
     (case spend userId of
        None \<Rightarrow> 0
      | Some userMap \<Rightarrow> (case userMap slot of None \<Rightarrow> 0 | Some v \<Rightarrow> v))"

definition addSpend ::
  "(nat \<Rightarrow> (int \<Rightarrow> real option) option) \<Rightarrow> nat \<Rightarrow> int \<Rightarrow> real
     \<Rightarrow> (nat \<Rightarrow> (int \<Rightarrow> real option) option)" where
  "addSpend spend userId slot amount =
     (let userMap = (case spend userId of None \<Rightarrow> Map.empty | Some m \<Rightarrow> m) in
      spend(userId \<mapsto> userMap(slot \<mapsto> (case userMap slot of None \<Rightarrow> 0 | Some v \<Rightarrow> v) + amount)))"

definition canApproveWithLimits :: "SimulationSpec \<Rightarrow> RunState \<Rightarrow> nat \<Rightarrow> real \<Rightarrow> real \<Rightarrow> bool" where
  "canApproveWithLimits spec st userId amount timeSec =
     (if \<not> limits_enabled (spendLimits spec) then True
      else if perTransactionLimit (spendLimits spec) > 0
              \<and> amount > perTransactionLimit (spendLimits spec) then False
      else if perUserDailyLimit (spendLimits spec) > 0
              \<and> getSpend (userDailySpend st) userId (dayIndex timeSec) + amount
                  > perUserDailyLimit (spendLimits spec) then False
      else if perUserTimeslotLimit (spendLimits spec) > 0
              \<and> getSpend (userTimeslotSpend st) userId (timeslotIndex spec timeSec) + amount
                  > perUserTimeslotLimit (spendLimits spec) then False
      else True)"

definition applySpendLimits :: "SimulationSpec \<Rightarrow> RunState \<Rightarrow> nat \<Rightarrow> real \<Rightarrow> real \<Rightarrow> RunState" where
  "applySpendLimits spec st userId amount timeSec =
     (if \<not> limits_enabled (spendLimits spec) then st
      else st\<lparr> userDailySpend := addSpend (userDailySpend st) userId (dayIndex timeSec) amount,
               userTimeslotSpend :=
                 addSpend (userTimeslotSpend st) userId (timeslotIndex spec timeSec) amount \<rparr>)"

subsection \<open>Bootstrapping the population\<close>

text \<open>
  The arrival loop of one user.  It stops when the next arrival is past the horizon, and
  an infinite gap-arrival time is past every horizon.  With draws ever closer to 1 it
  need not stop, so it is a partial function.
\<close>

partial_function (option) arrivals ::
  "SimulationSpec \<Rightarrow> nat \<Rightarrow> rng \<Rightarrow> MinHeap \<Rightarrow> nat \<Rightarrow> real \<Rightarrow> (rng \<times> MinHeap \<times> nat) option" where
  "arrivals spec u g evs txnId t =
     (if t < horizonSec spec then
        (case sampleInterarrival g (purchaseRate (userModel spec) / 3600)
                (burstinessEnabled (userModel spec)) (burstinessProbability (userModel spec))
                (burstinessMultiplier (userModel spec)) of
           (None, g1) \<Rightarrow> Some (g1, evs, txnId)
         | (Some gap, g1) \<Rightarrow>
             if t + gap > horizonSec spec then Some (g1, evs, txnId)
             else (case sampleDistribution g1 (ticketDistribution (userModel spec)) of
                     None \<Rightarrow> None
                   | Some (amount, g2) \<Rightarrow>
                       arrivals spec u g2
                         (push evs \<lparr> ev_timeSec = t + gap, ev_type = purchase, ev_userId = u,
                                     ev_txnId = txnId, ev_amount = amount, relatedAmount = None,
                                     ev_settlement = None, isFraud = None \<rparr>)
                         (txnId + 1) (t + gap)))
      else Some (g, evs, txnId))"

fun bootstrap ::
  "SimulationSpec \<Rightarrow> nat list \<Rightarrow> rng \<times> MinHeap \<times> real list \<times> nat
     \<Rightarrow> (rng \<times> MinHeap \<times> real list \<times> nat) option" where
  "bootstrap spec [] acc = Some acc"
| "bootstrap spec (u # us) (g, evs, bals, txnId) =
     (case sampleDistribution g (balanceDistribution (userModel spec)) of
        None \<Rightarrow> None
      | Some (b, g1) \<Rightarrow>
          (case arrivals spec u g1 evs txnId 0 of
             None \<Rightarrow> None
           | Some (g2, evs2, txnId2) \<Rightarrow> bootstrap spec us (g2, evs2, bals @ [b], txnId2)))"

text \<open>The decimal digits of a run index, as the template string prints them.\<close>

fun digits10 :: "nat \<Rightarrow> string" where
  "digits10 n =
     (if n < 10 then [char_of (48 + n)]
      else digits10 (n div 10) @ [char_of (48 + n mod 10)])"

declare digits10.simps [simp del]

definition initialState :: "SimulationSpec \<Rightarrow> string \<Rightarrow> nat \<Rightarrow> RunState option" where
  "initialState spec baseSeed runIndex =
     (case bootstrap spec [0 ..< users (userModel spec)]
             (createRng (baseSeed @ ''-'' @ digits10 runIndex), [], [], 0) of
        None \<Rightarrow> None
      | Some (g, evs, bals, txnId) \<Rightarrow>
          Some \<lparr> rng_state = g, events = evs, balances = bals,
                 holdTotals = replicate (users (userModel spec)) 0,
                 holdCounts = replicate (users (userModel spec)) 0,
                 pendingHoldSamples = [],
                 userDailySpend = Map.empty, userTimeslotSpend = Map.empty,
                 approvals = [], declines = [], timeouts = [], authTimes = [],
                 settlementTimes = [], retries = [], exposureEvents = [],
                 exposureDurations = [], authContext = Map.empty, holdByTxn = Map.empty,
                 overspendPrevented = 0, preAuthMismatchCount = 0, preAuthCount = 0,
                 incrementalAuthSuccessCount = 0, incrementalAuthCount = 0,
                 fraudAttempts = 0, fraudApprovals = 0, fraudExposureTotal = 0,
                 fraudApprovedAmount = 0, fraudLossTotal = 0, limitDeclines = 0,
                 totalSpent = 0, insufficientFundsSkipped = 0,
                 series = fst (initTimeSeries (horizonSec spec) 120),
                 popped = [], skippedUnavailable = 0, autoDeclined = 0 \<rparr>)"

subsection \<open>The handlers of the event loop\<close>

text \<open>
  The part of the purchase handler after the approval decision (off-chain hold mode), in
  three stages: the bookkeeping of the approval, the hold, and the scheduling of the
  completion or of the settlement.
\<close>

definition recordApproval ::
  "SimulationSpec \<Rightarrow> RunState \<Rightarrow> SimulationEvent \<Rightarrow> real \<Rightarrow> bool \<Rightarrow> real \<Rightarrow> RunState" where
  "recordApproval spec st event amount fraudulent authTime =
     (let userId = ev_userId event;
          st1 = st\<lparr> approvals := approvals st @ [ev_txnId event],
                    fraudApprovals := (if fraudulent then fraudApprovals st + 1 else fraudApprovals st),
                    authTimes := authTimes st @ [authTime],
                    series := addTimeSeriesPoint (series st) (binSize spec) (ev_timeSec event)
                                key_approvals \<rparr>;
          st2 = applySpendLimits spec st1 userId amount (ev_timeSec event)
      in st2\<lparr> totalSpent := totalSpent st2 + amount,
              fraudApprovedAmount :=
                (if fraudulent then fraudApprovedAmount st2 + amount else fraudApprovedAmount st2),
              fraudLossTotal :=
                (if fraudulent then fraudLossTotal st2 + amount else fraudLossTotal st2) \<rparr>)"

definition placeHold ::
  "SimulationSpec \<Rightarrow> RunState \<Rightarrow> SimulationEvent \<Rightarrow> real \<Rightarrow> bool \<Rightarrow> real \<Rightarrow> RunState" where
  "placeHold spec st event amount fraudulent issuerDoneAt =
     (let userId = ev_userId event in
      if holds_enabled (holds spec) then
        let hc = (holdCounts st)[userId := holdCounts st ! userId + 1] in
        st\<lparr> holdTotals := (holdTotals st)[userId := holdTotals st ! userId + amount],
            holdCounts := hc,
            pendingHoldSamples := pendingHoldSamples st @ [hc ! userId],
            events := push (events st)
              \<lparr> ev_timeSec = issuerDoneAt + holdDurationSec (holds spec),
                ev_type = hold_expiry, ev_userId = userId, ev_txnId = ev_txnId event,
                ev_amount = amount, relatedAmount = None, ev_settlement = None,
                isFraud = Some fraudulent \<rparr>,
            holdByTxn := (holdByTxn st)(ev_txnId event \<mapsto>
              \<lparr> hold_userId = userId, hold_amount = amount, approvalTime = issuerDoneAt \<rparr>) \<rparr>
      else st)"

definition approvePurchase ::
  "SimulationSpec \<Rightarrow> RunState \<Rightarrow> SimulationEvent \<Rightarrow> real \<Rightarrow> bool \<Rightarrow> real \<Rightarrow> real
     \<Rightarrow> RunState option" where
  "approvePurchase spec st event amount fraudulent issuerDoneAt authTime =
     (let userId = ev_userId event;
          st4 = placeHold spec (recordApproval spec st event amount fraudulent authTime)
                  event amount fraudulent issuerDoneAt
      in if preAuth_enabled (preAuth spec) then
           (case sampleDistribution (rng_state st4) (completionDelay (preAuth spec)) of
              None \<Rightarrow> None
            | Some (delayMs, g1) \<Rightarrow>
           (case sampleDistribution g1
                   \<lparr> dtype = lognormal, mean = completionMultiplierMean (preAuth spec),
                     p95 = completionMultiplierP95 (preAuth spec) \<rparr> of
              None \<Rightarrow> None
            | Some (multiplier, g2) \<Rightarrow>
                let completionDelaySec = delayMs / 1000;
                    finalAmount = amount * multiplier
                in Some (st4\<lparr> rng_state := g2,
                              preAuthCount := preAuthCount st4 + 1,
                              preAuthMismatchCount :=
                                (if \<bar>finalAmount - amount\<bar> / amount > 0.05
                                 then preAuthMismatchCount st4 + 1 else preAuthMismatchCount st4),
                              events := push (events st4)
                                \<lparr> ev_timeSec = ev_timeSec event + completionDelaySec,
                                  ev_type = completion, ev_userId = userId,
                                  ev_txnId = ev_txnId event, ev_amount = finalAmount,
                                  relatedAmount = Some amount, ev_settlement = None,
                                  isFraud = Some fraudulent \<rparr> \<rparr>)))
         else
           (case simulateSettlement (rng_state st4) (stellar spec) issuerDoneAt (outage spec) of
              None \<Rightarrow> None
            | Some (stl, g1) \<Rightarrow>
                Some (st4\<lparr> rng_state := g1,
                           events := push (events st4)
                             \<lparr> ev_timeSec = issuerDoneAt + sr_timeSec stl, ev_type = settlement,
                               ev_userId = userId, ev_txnId = ev_txnId event, ev_amount = amount,
                               relatedAmount = None, ev_settlement = Some stl,
                               isFraud = Some fraudulent \<rparr> \<rparr>)))"

text \<open>
  The purchase handler from the draw of the network legs on; \<open>st\<close> already holds the
  generator after the fraud draws.
\<close>

definition authorizePurchase ::
  "SimulationSpec \<Rightarrow> RunState \<Rightarrow> SimulationEvent \<Rightarrow> real \<Rightarrow> bool \<Rightarrow> RunState option" where
  "authorizePurchase spec st event amount fraudulent =
     (let userId = ev_userId event in
      case sampleNetworkLegs (rng_state st) (networkLatency spec) of
        None \<Rightarrow> None
      | Some (legs, g1) \<Rightarrow>
      (case sampleDistribution g1 (issuerProcessing spec) of
        None \<Rightarrow> None
      | Some (processingMs, g2) \<Rightarrow>
          let processingSec = processingMs / 1000;
              issuerDoneAt = ev_timeSec event + t1 legs + t2 legs + processingSec;
              authTime = t1 legs + t2 legs + processingSec + t3 legs + t4 legs
          in if mode spec = wait_on_chain then
               (case simulateSettlement g2 (stellar spec) issuerDoneAt (outage spec) of
                  None \<Rightarrow> None
                | Some (stl, g3) \<Rightarrow>
                    Some (st\<lparr> rng_state := g3,
                              authContext := (authContext st)(ev_txnId event \<mapsto>
                                \<lparr> requestTime = ev_timeSec event, legsOut = t3 legs + t4 legs,
                                  issuerDone = issuerDoneAt, ctx_amount = amount,
                                  ctx_isFraud = fraudulent \<rparr>),
                              events := push (events st)
                                \<lparr> ev_timeSec = issuerDoneAt + sr_timeSec stl,
                                  ev_type = settlement, ev_userId = userId,
                                  ev_txnId = ev_txnId event, ev_amount = amount,
                                  relatedAmount = None, ev_settlement = Some stl,
                                  isFraud = Some fraudulent \<rparr> \<rparr>))
             else if authTime > authTimeoutSec spec then
               Some (st\<lparr> rng_state := g2,
                         timeouts := timeouts st @ [ev_txnId event],
                         series := addTimeSeriesPoint (series st) (binSize spec)
                                     (ev_timeSec event) key_timeouts \<rparr>)
             else if \<not> canApproveWithLimits spec st userId amount (ev_timeSec event) then
               Some (st\<lparr> rng_state := g2,
                         limitDeclines := limitDeclines st + 1,
                         declines := declines st @ [ev_txnId event],
                         series := addTimeSeriesPoint (series st) (binSize spec)
                                     (ev_timeSec event) key_declines \<rparr>)
             else if balances st ! userId - holdTotals st ! userId < amount then
               Some (st\<lparr> rng_state := g2,
                         overspendPrevented :=
                           (if balances st ! userId \<ge> amount
                            then overspendPrevented st + 1 else overspendPrevented st),
                         insufficientFundsSkipped := insufficientFundsSkipped st + 1 \<rparr>)
             else approvePurchase spec (st\<lparr> rng_state := g2 \<rparr>) event amount fraudulent
                    issuerDoneAt authTime))"

definition handlePurchase :: "SimulationSpec \<Rightarrow> RunState \<Rightarrow> SimulationEvent \<Rightarrow> RunState option" where
  "handlePurchase spec st event =
     (let userId = ev_userId event;
          availablePre = balances st ! userId - holdTotals st ! userId
      in if availablePre \<le> 0 then Some (st\<lparr> skippedUnavailable := skippedUnavailable st + 1 \<rparr>)
         else
           case (if fraud_enabled (fraud spec)
                 then (case draw (rng_state st) of (r, g1) \<Rightarrow> (r < fraudAttemptRate (fraud spec), g1))
                 else (False, rng_state st)) of
             (fraudulent, g1) \<Rightarrow>
               if fraudulent then
                 (case sampleDistribution g1
                         \<lparr> dtype = lognormal, mean = fraudAmountMultiplierMean (fraud spec),
                           p95 = fraudAmountMultiplierP95 (fraud spec) \<rparr> of
                    None \<Rightarrow> None
                  | Some (multiplier, g2) \<Rightarrow>
                      (case draw g2 of (r, g3) \<Rightarrow>
                         if r < autoDeclineRate (fraud spec) then
                           Some (st\<lparr> rng_state := g3,
                                     fraudAttempts := fraudAttempts st + 1,
                                     declines := declines st @ [ev_txnId event],
                                     series := addTimeSeriesPoint (series st) (binSize spec)
                                                 (ev_timeSec event) key_declines,
                                     autoDeclined := autoDeclined st + 1 \<rparr>)
                         else authorizePurchase spec
                                (st\<lparr> rng_state := g3, fraudAttempts := fraudAttempts st + 1 \<rparr>)
                                event (ev_amount event * multiplier) True))
               else authorizePurchase spec (st\<lparr> rng_state := g1 \<rparr>) event (ev_amount event) False)"

text \<open>
  The completion handler in two stages: the incremental authorization of the difference
  between the final and the initial amount, and the scheduling of the settlement.
\<close>

definition incrementalAuth :: "SimulationSpec \<Rightarrow> RunState \<Rightarrow> SimulationEvent \<Rightarrow> RunState" where
  "incrementalAuth spec st event =
     (let userId = ev_userId event;
          finalAmount = ev_amount event;
          initialAmount = (case relatedAmount event of None \<Rightarrow> ev_amount event | Some a \<Rightarrow> a);
          delta = finalAmount - initialAmount
      in if delta > 0 \<and> allowIncremental (holds spec) then
           let st1 = st\<lparr> incrementalAuthCount := incrementalAuthCount st + 1 \<rparr>;
               st2 = (if \<not> canApproveWithLimits spec st1 userId delta (ev_timeSec event)
                      then st1\<lparr> limitDeclines := limitDeclines st1 + 1 \<rparr>
                      else applySpendLimits spec st1 userId delta (ev_timeSec event))
           in if balances st2 ! userId - holdTotals st2 ! userId \<ge> delta then
                let hc = (holdCounts st2)[userId := holdCounts st2 ! userId + 1] in
                st2\<lparr> incrementalAuthSuccessCount := incrementalAuthSuccessCount st2 + 1,
                     holdTotals := (holdTotals st2)[userId := holdTotals st2 ! userId + delta],
                     holdCounts := hc,
                     pendingHoldSamples := pendingHoldSamples st2 @ [hc ! userId] \<rparr>
              else st2
         else st)"

definition handleCompletion :: "SimulationSpec \<Rightarrow> RunState \<Rightarrow> SimulationEvent \<Rightarrow> RunState option" where
  "handleCompletion spec st event =
     (let userId = ev_userId event;
          finalAmount = ev_amount event;
          st3 = incrementalAuth spec st event
      in case sampleNetworkLegs (rng_state st3) (networkLatency spec) of
           None \<Rightarrow> None
         | Some (legs, g1) \<Rightarrow>
         (case sampleDistribution g1 (issuerProcessing spec) of
           None \<Rightarrow> None
         | Some (processingMs, g2) \<Rightarrow>
             let processingSec = processingMs / 1000;
                 issuerDoneAt = ev_timeSec event + t1 legs + t2 legs + processingSec
             in (case simulateSettlement g2 (stellar spec) issuerDoneAt (outage spec) of
                   None \<Rightarrow> None
                 | Some (stl, g3) \<Rightarrow>
                     Some (st3\<lparr> rng_state := g3,
                                events := push (events st3)
                                  \<lparr> ev_timeSec = issuerDoneAt + sr_timeSec stl,
                                    ev_type = settlement, ev_userId = userId,
                                    ev_txnId = ev_txnId event, ev_amount = finalAmount,
                                    relatedAmount = None, ev_settlement = Some stl,
                                    isFraud = isFraud event \<rparr> \<rparr>))))"

definition handleHoldExpiry :: "RunState \<Rightarrow> SimulationEvent \<Rightarrow> RunState" where
  "handleHoldExpiry st event =
     (case holdByTxn st (ev_txnId event) of
        None \<Rightarrow> st
      | Some hold \<Rightarrow>
          let hc = (holdCounts st)[hold_userId hold := holdCounts st ! hold_userId hold - 1] in
          st\<lparr> holdTotals := (holdTotals st)[hold_userId hold :=
                               holdTotals st ! hold_userId hold - hold_amount hold],
              holdCounts := hc,
              pendingHoldSamples := pendingHoldSamples st @ [hc ! hold_userId hold],
              holdByTxn := (holdByTxn st)(ev_txnId event := None) \<rparr>)"

definition settleWaitOnChain ::
  "SimulationSpec \<Rightarrow> RunState \<Rightarrow> SimulationEvent \<Rightarrow> SettlementResult \<Rightarrow> RunState" where
  "settleWaitOnChain spec st event stl =
     (let userId = ev_userId event in
      case authContext st (ev_txnId event) of
        None \<Rightarrow> st
      | Some ctx \<Rightarrow>
          let authTime = (ev_timeSec event - requestTime ctx) + legsOut ctx in
          if authTime > authTimeoutSec spec \<or> \<not> confirmed stl then
            (if authTime > authTimeoutSec spec then
               st\<lparr> timeouts := timeouts st @ [ev_txnId event],
                   series := addTimeSeriesPoint (series st) (binSize spec) (ev_timeSec event)
                               key_timeouts \<rparr>
             else
               st\<lparr> declines := declines st @ [ev_txnId event],
                   series := addTimeSeriesPoint (series st) (binSize spec) (ev_timeSec event)
                               key_declines \<rparr>)
          else if \<not> canApproveWithLimits spec st userId (ev_amount event) (requestTime ctx) then
            st\<lparr> limitDeclines := limitDeclines st + 1,
                declines := declines st @ [ev_txnId event],
                series := addTimeSeriesPoint (series st) (binSize spec) (ev_timeSec event)
                            key_declines \<rparr>
          else if balances st ! userId < ev_amount event then
            st\<lparr> insufficientFundsSkipped := insufficientFundsSkipped st + 1 \<rparr>
          else
            let st1 = st\<lparr> balances := (balances st)[userId := balances st ! userId - ev_amount event],
                          approvals := approvals st @ [ev_txnId event],
                          fraudApprovals :=
                            (if ctx_isFraud ctx then fraudApprovals st + 1 else fraudApprovals st),
                          authTimes := authTimes st @ [authTime],
                          settlementTimes := settlementTimes st @ [sr_timeSec stl],
                          retries := retries st @ [sr_retries stl],
                          series := addTimeSeriesPoint (series st) (binSize spec)
                                      (ev_timeSec event) key_approvals \<rparr>;
                st2 = applySpendLimits spec st1 userId (ev_amount event) (requestTime ctx)
            in st2\<lparr> totalSpent := totalSpent st2 + ev_amount event,
                    fraudApprovedAmount :=
                      (if ctx_isFraud ctx then fraudApprovedAmount st2 + ev_amount event
                       else fraudApprovedAmount st2),
                    fraudLossTotal :=
                      (if ctx_isFraud ctx then fraudLossTotal st2 + ev_amount event
                       else fraudLossTotal st2) \<rparr>)"

definition settleOffchain ::
  "SimulationSpec \<Rightarrow> RunState \<Rightarrow> SimulationEvent \<Rightarrow> SettlementResult \<Rightarrow> RunState" where
  "settleOffchain spec st event stl =
     (let userId = ev_userId event;
          hold = holdByTxn st (ev_txnId event);
          approvedAt = (case hold of None \<Rightarrow> ev_timeSec event | Some h \<Rightarrow> approvalTime h);
          settlementTime = sr_timeSec stl;
          isConfirmed = (confirmed stl \<and> balances st ! userId \<ge> ev_amount event);
          st1 = (if isConfirmed
                 then st\<lparr> balances := (balances st)[userId := balances st ! userId - ev_amount event],
                           settlementTimes := settlementTimes st @ [settlementTime],
                           retries := retries st @ [sr_retries stl] \<rparr>
                 else st);
          st2 = (if \<not> isConfirmed \<or> settlementTime > settlementSlaSec spec then
                   let endTime = approvedAt + min settlementTime (maxSettleWindowSec (stellar spec)) in
                   st1\<lparr> exposureEvents := exposureEvents st1 @
                          [\<lparr> exp_userId = userId, exp_amount = ev_amount event,
                             startSec = approvedAt, endSec = endTime \<rparr>],
                        exposureDurations := exposureDurations st1 @ [endTime - approvedAt],
                        fraudExposureTotal :=
                          (if isFraud event = Some True
                           then fraudExposureTotal st1 + ev_amount event
                           else fraudExposureTotal st1) \<rparr>
                 else st1)
      in case hold of
           None \<Rightarrow> st2
         | Some h \<Rightarrow>
             let hc = (holdCounts st2)[userId := holdCounts st2 ! userId - 1] in
             st2\<lparr> holdTotals := (holdTotals st2)[userId := holdTotals st2 ! userId - hold_amount h],
                  holdCounts := hc,
                  pendingHoldSamples := pendingHoldSamples st2 @ [hc ! userId],
                  holdByTxn := (holdByTxn st2)(ev_txnId event := None) \<rparr>)"

definition handleSettlement :: "SimulationSpec \<Rightarrow> RunState \<Rightarrow> SimulationEvent \<Rightarrow> RunState" where
  "handleSettlement spec st event =
     (case ev_settlement event of
        None \<Rightarrow> st
      | Some stl \<Rightarrow>
          if mode spec = wait_on_chain then settleWaitOnChain spec st event stl
          else settleOffchain spec st event stl)"

definition processEvent :: "SimulationSpec \<Rightarrow> RunState \<Rightarrow> SimulationEvent \<Rightarrow> RunState option" where
  "processEvent spec st event =
     (case ev_type event of
        purchase \<Rightarrow> handlePurchase spec st event
      | completion \<Rightarrow> handleCompletion spec st event
      | hold_expiry \<Rightarrow> Some (handleHoldExpiry st event)
      | settlement \<Rightarrow> Some (handleSettlement spec st event))"

subsection \<open>The event loop\<close>

text \<open>One pass of the loop: pop the earliest event and handle it.\<close>

definition popEvent :: "RunState \<Rightarrow> (SimulationEvent \<times> RunState) option" where
  "popEvent st =
     (case pop (events st) of
        None \<Rightarrow> None
      | Some (event, rest) \<Rightarrow> Some (event, st\<lparr> events := rest, popped := popped st @ [event] \<rparr>))"

partial_function (option) eventLoop :: "SimulationSpec \<Rightarrow> RunState \<Rightarrow> RunState option" where
  "eventLoop spec st =
     (case popEvent st of
        None \<Rightarrow> Some st
      | Some (event, st1) \<Rightarrow>
          (case processEvent spec st1 event of
             None \<Rightarrow> None
           | Some st2 \<Rightarrow> eventLoop spec st2))"

text \<open>The states a run passes through between two passes of the loop.\<close>

inductive reaches :: "SimulationSpec \<Rightarrow> RunState \<Rightarrow> RunState \<Rightarrow> bool" for spec :: SimulationSpec where
  reaches_start: "reaches spec st st"
| reaches_step:
    "reaches spec st st1 \<Longrightarrow> popEvent st1 = Some (event, st2)
       \<Longrightarrow> processEvent spec st2 event = Some st3 \<Longrightarrow> reaches spec st st3"

text \<open>The state in which the event loop of \<open>simulateOnce\<close> ends.\<close>

definition finalState :: "SimulationSpec \<Rightarrow> string \<Rightarrow> nat \<Rightarrow> RunState option" where
  "finalState spec baseSeed runIndex =
     (case initialState spec baseSeed runIndex of
        None \<Rightarrow> None
      | Some st \<Rightarrow> eventLoop spec st)"

subsection \<open>The result of a run\<close>

record SimulationMetrics =
  m_approvals :: nat
  m_declines :: nat
  m_timeouts :: nat
  approvalRate :: real
  declineRate :: real
  timeoutRate :: real
  avgAuthTimeSec :: real
  p95AuthTimeSec :: real
  settlementSuccessRate :: real
  settlementFailRate :: real
  avgSettlementTimeSec :: real
  p95SettlementTimeSec :: real
  retryP95 :: real
  exposureCount :: nat
  totalExposure :: real
  peakExposure :: real
  p95Exposure :: real
  exposureDurationP95Sec :: real
  m_overspendPrevented :: nat
  avgPendingHolds :: real
  p95PendingHolds :: real
  preAuthMismatchRate :: real
  incrementalAuthSuccessRate :: real
  m_fraudAttemptRate :: real
  fraudApprovalRate :: real
  m_fraudExposureTotal :: real
  m_fraudLossTotal :: real
  m_limitDeclines :: nat
  m_totalSpent :: real
  fraudApprovalRateNoLimits :: real
  fraudExposureTotalNoLimits :: real
  fraudLossTotalNoLimits :: real
  m_insufficientFundsSkipped :: nat

record SimulationRunResult =
  run_metrics :: SimulationMetrics
  run_timeSeries :: "TimeSeriesPoint list"
  run_settlementTimes :: "real list"
  run_authTimes :: "real list"
  run_exposureEvents :: "ExposureEvent list"
  run_retries :: "nat list"
  run_exposureDurations :: "real list"
  run_pendingHoldSamples :: "nat list"
  run_preAuthMismatchCount :: nat
  run_preAuthCount :: nat
  run_incrementalAuthSuccessCount :: nat
  run_incrementalAuthCount :: nat
  run_fraudAttempts :: nat
  run_fraudApprovals :: nat

text \<open>The double that the literal \<open>0.95\<close> denotes.\<close>

definition P95 :: real where
  "P95 = 8556839292003942 / 2 ^ 53"

text \<open>\<open>Math.max(0, ...xs)\<close>.\<close>

definition max0 :: "real list \<Rightarrow> real" where
  "max0 xs = foldl max 0 xs"

text \<open>
  What \<open>simulateOnce\<close> returns from the state its loop ends in.  The three fields of
  the metrics that only \<open>runSimulation\<close> assigns are absent from the object literal of
  the source; they are 0 here.
\<close>

definition finishRun :: "SimulationSpec \<Rightarrow> RunState \<Rightarrow> SimulationRunResult" where
  "finishRun spec st =
     (let sr = foldl (\<lambda>sr e. accumulateExposure sr (binSize spec) e) (series st) (exposureEvents st);
          decided = length (approvals st) + length (declines st) + length (timeouts st)
      in \<lparr> run_metrics =
             \<lparr> m_approvals = length (approvals st),
               m_declines = length (declines st),
               m_timeouts = length (timeouts st),
               approvalRate = 0, declineRate = 0, timeoutRate = 0,
               avgAuthTimeSec = average (authTimes st),
               p95AuthTimeSec = percentile (authTimes st) P95,
               settlementSuccessRate = 0, settlementFailRate = 0,
               avgSettlementTimeSec = average (settlementTimes st),
               p95SettlementTimeSec = percentile (settlementTimes st) P95,
               retryP95 = percentile (map real (retries st)) P95,
               exposureCount = length (exposureEvents st),
               totalExposure = foldl (\<lambda>sm e. sm + exp_amount e) 0 (exposureEvents st),
               peakExposure = max0 (map exposure sr),
               p95Exposure = percentile (map exposure sr) P95,
               exposureDurationP95Sec = percentile (exposureDurations st) P95,
               m_overspendPrevented = overspendPrevented st,
               avgPendingHolds = average (map real (pendingHoldSamples st)),
               p95PendingHolds = percentile (map real (pendingHoldSamples st)) P95,
               preAuthMismatchRate =
                 (if preAuthCount st \<noteq> 0
                  then real (preAuthMismatchCount st) / real (preAuthCount st) else 0),
               incrementalAuthSuccessRate =
                 (if incrementalAuthCount st \<noteq> 0
                  then real (incrementalAuthSuccessCount st) / real (incrementalAuthCount st)
                  else 0),
               m_fraudAttemptRate =
                 (if fraudAttempts st \<noteq> 0
                  then real (fraudAttempts st) / real (max 1 decided) else 0),
               fraudApprovalRate =
                 (if fraudAttempts st \<noteq> 0
                  then real (fraudApprovals st) / real (fraudAttempts st) else 0),
               m_fraudExposureTotal = fraudExposureTotal st,
               m_fraudLossTotal = fraudLossTotal st,
               m_limitDeclines = limitDeclines st,
               m_totalSpent = totalSpent st,
               fraudApprovalRateNoLimits = 0,
               fraudExposureTotalNoLimits = 0,
               fraudLossTotalNoLimits = 0,
               m_insufficientFundsSkipped = insufficientFundsSkipped st \<rparr>,
           run_timeSeries = sr,
           run_settlementTimes = settlementTimes st,
           run_authTimes = authTimes st,
           run_exposureEvents = exposureEvents st,
           run_retries = retries st,
           run_exposureDurations = exposureDurations st,
           run_pendingHoldSamples = pendingHoldSamples st,
           run_preAuthMismatchCount = preAuthMismatchCount st,
           run_preAuthCount = preAuthCount st,
           run_incrementalAuthSuccessCount = incrementalAuthSuccessCount st,
           run_incrementalAuthCount = incrementalAuthCount st,
           run_fraudAttempts = fraudAttempts st,
           run_fraudApprovals = fraudApprovals st \<rparr>)"

definition simulateOnce :: "SimulationSpec \<Rightarrow> string \<Rightarrow> nat \<Rightarrow> SimulationRunResult option" where
  "simulateOnce spec baseSeed runIndex = map_option (finishRun spec) (finalState spec baseSeed runIndex)"

section \<open>Running and aggregating\<close>

text \<open>
  \<open>runSimulationRuns\<close> makes \<open>cnt\<close> (the source's \<open>count\<close>) runs with the indices \<open>startIndex\<close>,
  \<open>startIndex + 1\<close>, ...; it returns once all of them have.  The progress callback has no
  part in the result.
\<close>

fun runSimulationRuns_loop ::
  "SimulationSpec \<Rightarrow> nat \<Rightarrow> nat \<Rightarrow> nat \<Rightarrow> SimulationRunResult list \<Rightarrow> SimulationRunResult list option" where
  "runSimulationRuns_loop spec startIndex i 0 runs = Some runs"
| "runSimulationRuns_loop spec startIndex i (Suc remaining) runs =
     (case simulateOnce spec (seed spec) (startIndex + i) of
        None \<Rightarrow> None
      | Some run \<Rightarrow> runSimulationRuns_loop spec startIndex (i + 1) remaining (runs @ [run]))"

definition runSimulationRuns ::
  "SimulationSpec \<Rightarrow> nat \<Rightarrow> nat \<Rightarrow> SimulationRunResult list option" where
  "runSimulationRuns spec startIndex cnt = runSimulationRuns_loop spec startIndex 0 cnt []"

definition mergeTimeSeries :: "TimeSeriesPoint list \<Rightarrow> TimeSeriesPoint list \<Rightarrow> TimeSeriesPoint list" where
  "mergeTimeSeries target source =
     map (\<lambda>i. (target ! i)\<lparr> tp_approvals := tp_approvals (target ! i) + tp_approvals (source ! i),
                           tp_declines := tp_declines (target ! i) + tp_declines (source ! i),
                           tp_timeouts := tp_timeouts (target ! i) + tp_timeouts (source ! i),
                           exposure := exposure (target ! i) + exposure (source ! i) \<rparr>)
       [0 ..< length target]"

text \<open>
  A histogram bin.  The source labels a bin with the printed forms of its bounds; the bin
  carries the bounds themselves here, and a percentile row carries its percentage.
\<close>

record HistogramBin =
  bin_start :: real
  bin_end :: real
  bin_value :: real

record PercentileRow =
  row_percent :: int
  row_value :: real

definition histogram :: "real list \<Rightarrow> nat \<Rightarrow> HistogramBin list" where
  "histogram vals bins =
     (if length vals = 0 then []
      else let mx = Max (set vals);
               mn = Min (set vals);
               width = (if mx = mn then 1 else (mx - mn) / real bins);
               counts = foldl (\<lambda>cs v.
                           let idx = nat (min (int bins - 1) \<lfloor>(v - mn) / width\<rfloor>)
                           in cs[idx := cs ! idx + 1])
                         (replicate bins (0::nat)) vals
           in map (\<lambda>i. \<lparr> bin_start = mn + real i * width,
                         bin_end = mn + real i * width + width,
                         bin_value = real (counts ! i) \<rparr>) [0 ..< bins])"

definition percentileRows :: "real list \<Rightarrow> PercentileRow list" where
  "percentileRows vals =
     map (\<lambda>p. \<lparr> row_percent = \<lfloor>p * 100 + 1 / 2\<rfloor>, row_value = percentile vals p \<rparr>)
       [0.5, 0.75, 0.9, 0.95, 0.99]"

text \<open>The per-user exposure totals, in the order the users first appear.\<close>

fun addExposureByUser :: "(nat \<times> real) list \<Rightarrow> nat \<Rightarrow> real \<Rightarrow> (nat \<times> real) list" where
  "addExposureByUser [] u a = [(u, 0 + a)]"
| "addExposureByUser ((k, v) # rest) u a =
     (if k = u then (k, v + a) # rest else (k, v) # addExposureByUser rest u a)"

record SimulationResults =
  res_metrics :: SimulationMetrics
  res_timeSeries :: "TimeSeriesPoint list"
  settlementHistogram :: "HistogramBin list"
  authHistogram :: "HistogramBin list"
  exposureHistogram :: "HistogramBin list"
  exposurePerUserHistogram :: "HistogramBin list"
  settlementPercentiles :: "PercentileRow list"
  authPercentiles :: "PercentileRow list"
  exposurePercentiles :: "PercentileRow list"
  retryHistogram :: "HistogramBin list"
  res_exposureEvents :: "ExposureEvent list"
  res_seed :: string

definition aggregateRunResults :: "SimulationSpec \<Rightarrow> SimulationRunResult list \<Rightarrow> SimulationResults" where
  "aggregateRunResults spec runs =
     (let runCount = max 1 (length runs);
          aggregateSeries = foldl (\<lambda>agg run.
              if length agg = 0 then run_timeSeries run
              else mergeTimeSeries agg (run_timeSeries run)) [] runs;
          settlementTimesAll = concat (map run_settlementTimes runs);
          authTimesAll = concat (map run_authTimes runs);
          exposureEventsAll = concat (map run_exposureEvents runs);
          retriesAll = concat (map run_retries runs);
          exposureDurationsAll = concat (map run_exposureDurations runs);
          pendingHoldSamplesAll = concat (map run_pendingHoldSamples runs);
          approvalsN = sum_list (map (\<lambda>r. m_approvals (run_metrics r)) runs);
          declinesN = sum_list (map (\<lambda>r. m_declines (run_metrics r)) runs);
          timeoutsN = sum_list (map (\<lambda>r. m_timeouts (run_metrics r)) runs);
          fraudAttemptsN = sum_list (map run_fraudAttempts runs);
          fraudApprovalsN = sum_list (map run_fraudApprovals runs);
          preAuthMismatchN = sum_list (map run_preAuthMismatchCount runs);
          preAuthCountN = sum_list (map run_preAuthCount runs);
          incrementalAuthSuccessN = sum_list (map run_incrementalAuthSuccessCount runs);
          incrementalAuthCountN = sum_list (map run_incrementalAuthCount runs);
          total = approvalsN + declinesN + timeoutsN;
          successRate = real (length settlementTimesAll) / real (max 1 approvalsN);
          metrics =
            \<lparr> m_approvals = approvalsN,
              m_declines = declinesN,
              m_timeouts = timeoutsN,
              approvalRate = (if total \<noteq> 0 then real approvalsN / real total else 0),
              declineRate = (if total \<noteq> 0 then real declinesN / real total else 0),
              timeoutRate = (if total \<noteq> 0 then real timeoutsN / real total else 0),
              avgAuthTimeSec = average authTimesAll,
              p95AuthTimeSec = percentile authTimesAll P95,
              settlementSuccessRate = successRate,
              settlementFailRate = 1 - successRate,
              avgSettlementTimeSec = average settlementTimesAll,
              p95SettlementTimeSec = percentile settlementTimesAll P95,
              retryP95 = percentile (map real retriesAll) P95,
              exposureCount = length exposureEventsAll,
              totalExposure = foldl (\<lambda>sm e. sm + exp_amount e) 0 exposureEventsAll,
              peakExposure = max0 (map exposure aggregateSeries),
              p95Exposure = percentile (map exposure aggregateSeries) P95,
              exposureDurationP95Sec = percentile exposureDurationsAll P95,
              m_overspendPrevented = sum_list (map (\<lambda>r. m_overspendPrevented (run_metrics r)) runs),
              avgPendingHolds = average (map real pendingHoldSamplesAll),
              p95PendingHolds = percentile (map real pendingHoldSamplesAll) P95,
              preAuthMismatchRate =
                (if preAuthCountN \<noteq> 0 then real preAuthMismatchN / real preAuthCountN else 0),
              incrementalAuthSuccessRate =
                (if incrementalAuthCountN \<noteq> 0
                 then real incrementalAuthSuccessN / real incrementalAuthCountN else 0),
              m_fraudAttemptRate = (if total \<noteq> 0 then real fraudAttemptsN / real total else 0),
              fraudApprovalRate =
                (if fraudAttemptsN \<noteq> 0 then real fraudApprovalsN / real fraudAttemptsN else 0),
              m_fraudExposureTotal =
                foldl (\<lambda>sm r. sm + m_fraudExposureTotal (run_metrics r)) 0 runs,
              m_fraudLossTotal = foldl (\<lambda>sm r. sm + m_fraudLossTotal (run_metrics r)) 0 runs,
              m_limitDeclines = sum_list (map (\<lambda>r. m_limitDeclines (run_metrics r)) runs),
              m_totalSpent = foldl (\<lambda>sm r. sm + m_totalSpent (run_metrics r)) 0 runs,
              fraudApprovalRateNoLimits = 0,
              fraudExposureTotalNoLimits = 0,
              fraudLossTotalNoLimits = 0,
              m_insufficientFundsSkipped =
                sum_list (map (\<lambda>r. m_insufficientFundsSkipped (run_metrics r)) runs) \<rparr>;
          exposureByUser = foldl (\<lambda>m e. addExposureByUser m (exp_userId e) (exp_amount e)) []
                             exposureEventsAll
      in \<lparr> res_metrics = metrics,
           res_timeSeries = map (\<lambda>pt. pt\<lparr> tp_approvals := tp_approvals pt / real runCount,
                                          tp_declines := tp_declines pt / real runCount,
                                          tp_timeouts := tp_timeouts pt / real runCount,
                                          exposure := exposure pt / real runCount \<rparr>)
                              aggregateSeries,
           settlementHistogram = histogram settlementTimesAll 24,
           authHistogram = histogram authTimesAll 24,
           exposureHistogram = histogram (map exp_amount exposureEventsAll) 20,
           exposurePerUserHistogram = histogram (map snd exposureByUser) 20,
           settlementPercentiles = percentileRows settlementTimesAll,
           authPercentiles = percentileRows authTimesAll,
           exposurePercentiles = percentileRows (map exp_amount exposureEventsAll),
           retryHistogram = histogram (map real retriesAll) 10,
           res_exposureEvents = exposureEventsAll,
           res_seed = seed spec \<rparr>)"

definition runSimulationInternal :: "SimulationSpec \<Rightarrow> SimulationResults option" where
  "runSimulationInternal spec =
     (let runs = nat (max 1 \<lfloor>monteCarloRuns spec\<rfloor>) in
      map_option (aggregateRunResults spec) (runSimulationRuns spec 0 runs))"

definition runSimulation :: "SimulationSpec \<Rightarrow> SimulationResults option" where
  "runSimulation spec =
     (case runSimulationInternal spec of
        None \<Rightarrow> None
      | Some base \<Rightarrow>
          if fraud_enabled (fraud spec) \<and> limits_enabled (spendLimits spec) then
            (case runSimulationInternal
                    (spec\<lparr> spendLimits := (spendLimits spec)\<lparr> limits_enabled := False \<rparr> \<rparr>) of
               None \<Rightarrow> None
             | Some noLimits \<Rightarrow>
                 Some (base\<lparr> res_metrics := (res_metrics base)
                   \<lparr> fraudApprovalRateNoLimits := fraudApprovalRate (res_metrics noLimits),
                     fraudExposureTotalNoLimits := m_fraudExposureTotal (res_metrics noLimits),
                     fraudLossTotalNoLimits := m_fraudLossTotal (res_metrics noLimits) \<rparr> \<rparr>))
          else
            Some (base\<lparr> res_metrics := (res_metrics base)
              \<lparr> fraudApprovalRateNoLimits := fraudApprovalRate (res_metrics base),
                fraudExposureTotalNoLimits := m_fraudExposureTotal (res_metrics base),
                fraudLossTotalNoLimits := m_fraudLossTotal (res_metrics base) \<rparr> \<rparr>))"

section \<open>Invariants of the queue and of a run\<close>

text \<open>
  The heap property of the array of the queue: no event is earlier than its parent.
  \<open>smallest_child\<close> names the index that one pass of \<open>bubbleDown\<close> selects.
\<close>

definition heap_ok :: "MinHeap \<Rightarrow> bool" where
  "heap_ok d = (\<forall>j<length d. 0 < j \<longrightarrow> ev_timeSec (d ! ((j - 1) div 2)) \<le> ev_timeSec (d ! j))"

definition smallest_child :: "MinHeap \<Rightarrow> nat \<Rightarrow> nat" where
  "smallest_child d i =
     (let s1 = (if 2 * i + 1 < length d \<and> ev_timeSec (d ! (2 * i + 1)) < ev_timeSec (d ! i)
                then 2 * i + 1 else i)
      in if 2 * i + 2 < length d \<and> ev_timeSec (d ! (2 * i + 2)) < ev_timeSec (d ! s1)
         then 2 * i + 2 else s1)"

text \<open>
  A generator that keeps the contract of \<open>RNG\<close>, values in \<open>[0, 1)\<close>, and the
  relation between a generator and what is left of it after some calls.
\<close>

definition rng_ok :: "rng \<Rightarrow> bool" where
  "rng_ok g = (\<forall>n. 0 \<le> g n \<and> g n < 1)"

definition later :: "rng \<Rightarrow> rng \<Rightarrow> bool" where
  "later g g' = (\<exists>k. g' = (\<lambda>n. g (n + k)))"

text \<open>
  The delays a specification can make negative: the hold duration, the backoff, the
  ledger close interval without jitter and the submission delay under an outage.
\<close>

definition stellar_nonneg :: "StellarSpec \<Rightarrow> bool" where
  "stellar_nonneg s = (0 \<le> backoffBaseMs s \<and> 0 \<le> backoffMultiplier s
      \<and> (0 < ledgerJitter s \<or> 0 \<le> ledgerCloseMean s))"

definition nonneg_delays :: "SimulationSpec \<Rightarrow> bool" where
  "nonneg_delays spec = (0 \<le> holdDurationSec (holds spec) \<and> stellar_nonneg (stellar spec)
      \<and> (outage_enabled (outage spec) \<longrightarrow> 0 \<le> submissionDelayMultiplier (outage spec)))"

definition settled_nonneg :: "SimulationEvent \<Rightarrow> bool" where
  "settled_nonneg e = (ev_type e = settlement \<longrightarrow> (\<exists>s. ev_settlement e = Some s \<and> 0 \<le> sr_timeSec s))"

definition step_order :: "SimulationEvent \<Rightarrow> RunState \<Rightarrow> RunState \<Rightarrow> bool" where
  "step_order ev st st' =
     (popped st' = popped st \<and> rng_ok (rng_state st')
      \<and> (heap_ok (events st) \<longrightarrow> heap_ok (events st'))
      \<and> (\<forall>e\<in>set (events st'). e \<in> set (events st)
            \<or> (ev_timeSec ev \<le> ev_timeSec e \<and> settled_nonneg e)))"

text \<open>
  The invariant behind the order of the popped events: the queue is a heap, the generator
  keeps its contract, what was popped so far is in order and not later than anything
  still queued, and every queued settlement carries a non-negative settlement time.
\<close>

definition order_inv :: "RunState \<Rightarrow> bool" where
  "order_inv st =
     (heap_ok (events st) \<and> rng_ok (rng_state st)
      \<and> sorted (map ev_timeSec (popped st))
      \<and> (\<forall>p\<in>set (popped st). \<forall>e\<in>set (events st). ev_timeSec p \<le> ev_timeSec e)
      \<and> (\<forall>e\<in>set (events st). settled_nonneg e))"


text \<open>
  What the arrival loops add to the queue: purchases of the users at hand, with
  non-negative amounts and transaction ids from a range, each id owned by one user.
\<close>

definition fresh_purchases :: "MinHeap \<Rightarrow> MinHeap \<Rightarrow> nat set \<Rightarrow> nat \<Rightarrow> nat \<Rightarrow> (nat \<Rightarrow> nat) \<Rightarrow> bool" where
  "fresh_purchases old new us lo hi own =
     (\<forall>e\<in>set new. e \<in> set old
        \<or> (ev_type e = purchase \<and> ev_userId e \<in> us \<and> 0 \<le> ev_amount e
            \<and> lo \<le> ev_txnId e \<and> ev_txnId e < hi \<and> own (ev_txnId e) = ev_userId e))"


text \<open>
  The counts behind the conservation of purchase attempts: the attempts decided so far,
  the attempts skipped (silently when nothing is available, or counted as insufficient
  funds), the purchases popped, and in wait-on-chain mode the attempts whose decision is
  still queued as a settlement event.
\<close>

definition decided :: "RunState \<Rightarrow> nat" where
  "decided st = length (approvals st) + length (declines st) + length (timeouts st)"

definition skipped :: "RunState \<Rightarrow> nat" where
  "skipped st = skippedUnavailable st + insufficientFundsSkipped st"

definition purchases_popped :: "RunState \<Rightarrow> nat" where
  "purchases_popped st = length (filter (\<lambda>e. ev_type e = purchase) (popped st))"

definition pending_settlements :: "SimulationSpec \<Rightarrow> RunState \<Rightarrow> nat" where
  "pending_settlements spec st =
     (if mode spec = wait_on_chain
      then length (filter (\<lambda>e. ev_type e = settlement) (events st)) else 0)"

definition queue_wf :: "SimulationSpec \<Rightarrow> RunState \<Rightarrow> bool" where
  "queue_wf spec st =
     (mode spec = wait_on_chain \<longrightarrow>
        (\<forall>e\<in>set (events st). ev_type e = purchase
            \<or> (ev_type e = settlement \<and> ev_settlement e \<noteq> None
                \<and> authContext st (ev_txnId e) \<noteq> None)))"

definition conservation_inv :: "SimulationSpec \<Rightarrow> RunState \<Rightarrow> bool" where
  "conservation_inv spec st =
     (decided st + skipped st + pending_settlements spec st = purchases_popped st
      \<and> autoDeclined st \<le> length (declines st)
      \<and> queue_wf spec st)"

text \<open>
  What one handler does to the counts: \<open>k\<close> more attempts decided or skipped, every
  new automatic decline among the new declines, the popped events untouched; a settlement
  scheduled for the purchase at hand; or the queue and the authorization contexts kept.
\<close>

definition count_step :: "nat \<Rightarrow> RunState \<Rightarrow> RunState \<Rightarrow> bool" where
  "count_step k st st' =
     (decided st' + skipped st' = decided st + skipped st + k
      \<and> autoDeclined st' + length (declines st) \<le> autoDeclined st + length (declines st')
      \<and> popped st' = popped st)"

definition schedules :: "SimulationEvent \<Rightarrow> RunState \<Rightarrow> RunState \<Rightarrow> bool" where
  "schedules ev st st' =
     (\<exists>e c. mset (events st') = add_mset e (mset (events st)) \<and> ev_type e = settlement
          \<and> ev_settlement e \<noteq> None \<and> ev_txnId e = ev_txnId ev
          \<and> authContext st' = (authContext st)(ev_txnId ev \<mapsto> c))"

definition keeps_queue :: "RunState \<Rightarrow> RunState \<Rightarrow> bool" where
  "keeps_queue st st' = (events st' = events st \<and> authContext st' = authContext st)"

definition attempt_counts :: "RunState \<Rightarrow> nat \<times> nat \<times> nat \<times> nat" where
  "attempt_counts st = (decided st, purchases_popped st, skipped st, autoDeclined st)"

text \<open>
  The holds of a user as \<open>holdByTxn\<close> records them: \<open>held m u\<close> is the sum of the
  amounts of the recorded holds of user \<open>u\<close>.  The invariant of the bookkeeping of the
  holds in exact arithmetic: every recorded hold has a non-negative amount and belongs to the owner of its
  transaction, every queued event belongs to the owner of its transaction, queued
  purchases have non-negative amounts, and the total of a user covers the recorded holds.
\<close>

definition hold_share :: "nat \<Rightarrow> Hold option \<Rightarrow> real" where
  "hold_share u ho =
     (case ho of None \<Rightarrow> 0 | Some h \<Rightarrow> if hold_userId h = u then hold_amount h else 0)"

definition held :: "(nat \<rightharpoonup> Hold) \<Rightarrow> nat \<Rightarrow> real" where
  "held m u = (\<Sum>t\<in>dom m. hold_share u (m t))"

definition hold_inv :: "SimulationSpec \<Rightarrow> (nat \<Rightarrow> nat) \<Rightarrow> RunState \<Rightarrow> bool" where
  "hold_inv spec own st =
     (length (holdTotals st) = users (userModel spec)
      \<and> finite (dom (holdByTxn st))
      \<and> (\<forall>t h. holdByTxn st t = Some h \<longrightarrow> 0 \<le> hold_amount h \<and> hold_userId h = own t)
      \<and> (\<forall>e\<in>set (events st). ev_userId e = own (ev_txnId e)
             \<and> (ev_type e = purchase \<longrightarrow> 0 \<le> ev_amount e))
      \<and> (\<forall>u<users (userModel spec). held (holdByTxn st) u \<le> holdTotals st ! u))"

text \<open>What one handler does to the holds and to the queue.\<close>

definition pushes_for :: "SimulationEvent \<Rightarrow> RunState \<Rightarrow> RunState \<Rightarrow> bool" where
  "pushes_for ev st st' =
     (\<forall>e\<in>set (events st'). e \<in> set (events st)
        \<or> (ev_userId e = ev_userId ev \<and> ev_txnId e = ev_txnId ev \<and> ev_type e \<noteq> purchase))"

definition keeps_holds :: "RunState \<Rightarrow> RunState \<Rightarrow> bool" where
  "keeps_holds st st' = (holdTotals st' = holdTotals st \<and> holdByTxn st' = holdByTxn st)"

definition raises_total :: "nat \<Rightarrow> RunState \<Rightarrow> RunState \<Rightarrow> bool" where
  "raises_total u st st' =
     (\<exists>a\<ge>0. holdTotals st' = (holdTotals st)[u := holdTotals st ! u + a]
            \<and> holdByTxn st' = holdByTxn st)"

definition places_hold :: "nat \<Rightarrow> nat \<Rightarrow> RunState \<Rightarrow> RunState \<Rightarrow> bool" where
  "places_hold u t st st' =
     (\<exists>a\<ge>0. \<exists>tm. holdTotals st' = (holdTotals st)[u := holdTotals st ! u + a]
            \<and> holdByTxn st' = (holdByTxn st)(t \<mapsto>
                 \<lparr> hold_userId = u, hold_amount = a, approvalTime = tm \<rparr>))"

definition releases_hold :: "nat \<Rightarrow> nat \<Rightarrow> RunState \<Rightarrow> RunState \<Rightarrow> bool" where
  "releases_hold u t st st' =
     (\<exists>h. holdByTxn st t = Some h
         \<and> holdTotals st' = (holdTotals st)[u := holdTotals st ! u - hold_amount h]
         \<and> holdByTxn st' = (holdByTxn st)(t := None))"




section \<open>Reference definitions and concrete inputs\<close>

text \<open>
  The nearest-rank percentile as the specification words it: the element at 1-based rank
  \<open>ceil (p * n)\<close> of the sorted list.
\<close>

definition nearest_rank_percentile :: "real list \<Rightarrow> real \<Rightarrow> real" where
  "nearest_rank_percentile vals p = sort vals ! (nat \<lceil>p * real (length vals)\<rceil> - 1)"

text \<open>Two generators: one that always returns \<open>c\<close>, one that alternates 0.01 and 0.5.\<close>

definition const_rng :: "real \<Rightarrow> rng" where
  "const_rng c = (\<lambda>n. c)"

definition alt_rng :: rng where
  "alt_rng = (\<lambda>n. if even n then 1 / 100 else 1 / 2)"

definition degenerate_lognormal :: DistributionSpec where
  "degenerate_lognormal = \<lparr> dtype = lognormal, mean = 0, p95 = 0 \<rparr>"

definition degenerate_gamma :: DistributionSpec where
  "degenerate_gamma = \<lparr> dtype = gamma, mean = 0, p95 = 0 \<rparr>"

definition stellar_fixture :: StellarSpec where
  "stellar_fixture =
     \<lparr> ledgerCloseMean = 6, ledgerJitter = 0, submissionDelay = degenerate_lognormal,
       inclusionProbability = 3 / 10, baseFee = 100, feeBumpFactor = 3 / 2, maxRetries = 2,
       backoffBaseMs = 500, backoffMultiplier = 2, maxSettleWindowSec = 60 \<rparr>"

definition outage_off :: OutageSpec where
  "outage_off =
     \<lparr> outage_enabled = False, startHour = 0, durationHours = 0,
       submissionDelayMultiplier = 1, inclusionProbabilityMultiplier = 1 \<rparr>"


subsection \<open>A run with one user and one purchase\<close>

text \<open>
  The generator after \<open>k\<close> more draws.
\<close>

definition advance :: "nat \<Rightarrow> rng \<Rightarrow> rng" where
  "advance k g = (\<lambda>n. g (k + n))"

text \<open>
  One user with a lognormal balance, tickets of amount 0, one arrival per second in
  normal times and none in a burst; no latency, holds of 300 seconds, ledgers that include
  every transaction, and a settlement SLA of 0 seconds; the mean ledger close time and the
  settlement window are parameters.  With seed \<open>s\<close> and run index 0 the run has
  exactly one purchase.
\<close>

definition one_user :: UserModelSpec where
  "one_user =
     \<lparr> users = 1, avgBalance = 100,
       balanceDistribution = \<lparr> dtype = lognormal, mean = 100, p95 = 200 \<rparr>,
       purchaseRate = 3600, avgTicket = 0, ticketDistribution = degenerate_lognormal,
       burstinessEnabled = True, burstinessProbability = 1 / 2, burstinessMultiplier = 0 \<rparr>"

definition no_latency :: NetworkLatencySpec where
  "no_latency =
     \<lparr> nl_mode = combined_mode, combined = degenerate_lognormal,
       terminalToNetwork = degenerate_lognormal, networkToIssuer = degenerate_lognormal,
       issuerToNetwork = degenerate_lognormal, networkToTerminal = degenerate_lognormal \<rparr>"

definition ledger_spec :: "real \<Rightarrow> real \<Rightarrow> StellarSpec" where
  "ledger_spec closeMean window =
     \<lparr> ledgerCloseMean = closeMean, ledgerJitter = 0, submissionDelay = degenerate_lognormal,
       inclusionProbability = 1, baseFee = 100, feeBumpFactor = 3 / 2, maxRetries = 2,
       backoffBaseMs = 500, backoffMultiplier = 2, maxSettleWindowSec = window \<rparr>"

definition purchase_spec :: "real \<Rightarrow> real \<Rightarrow> SimulationSpec" where
  "purchase_spec closeMean window =
     \<lparr> horizonHours = 1, monteCarloRuns = 1, seed = ''s'', mode = offchain_hold,
       authTimeoutSec = 10, issuerProcessing = degenerate_lognormal,
       networkLatency = no_latency, stellar = ledger_spec closeMean window, outage = outage_off,
       userModel = one_user,
       holds = \<lparr> holds_enabled = True, holdDurationSec = 300, allowIncremental = False \<rparr>,
       preAuth = \<lparr> preAuth_enabled = False, completionDelay = degenerate_lognormal,
                   completionMultiplierMean = 1, completionMultiplierP95 = 1 \<rparr>,
       fraud = \<lparr> fraud_enabled = False, fraudAttemptRate = 0, fraudAmountMultiplierMean = 0,
                 fraudAmountMultiplierP95 = 0, autoDeclineRate = 0 \<rparr>,
       spendLimits = \<lparr> limits_enabled = False, perTransactionLimit = 0, perUserDailyLimit = 0,
                       perUserTimeslotLimit = 0, timeslotMinutes = 60 \<rparr>,
       settlementSlaSec = 0 \<rparr>"

definition one_purchase_spec :: SimulationSpec where
  "one_purchase_spec = purchase_spec 6 60"

text \<open>The same run with ledgers that close every -1000 seconds.\<close>

definition negative_ledger_spec :: SimulationSpec where
  "negative_ledger_spec = purchase_spec (- 1000) 60"


text \<open>The same run where every purchase is a fraud attempt and every attempt is declined at once.\<close>

definition all_fraud_spec :: SimulationSpec where
  "all_fraud_spec = one_purchase_spec\<lparr> fraud :=
     \<lparr> fraud_enabled = True, fraudAttemptRate = 1, fraudAmountMultiplierMean = 0,
       fraudAmountMultiplierP95 = 0, autoDeclineRate = 1 \<rparr> \<rparr>"

text \<open>The time of the one arrival, and the draw that places the settlement in its ledger.\<close>

definition first_arrival :: real where
  "first_arrival = - ln (1913483070 / 4294967296)"

definition ledger_draw :: real where
  "ledger_draw = 526780819 / 4294967296"

definition popped_times :: "RunState \<Rightarrow> real list" where
  "popped_times st = map ev_timeSec (popped st)"

text \<open>The generator of that run, its one purchase, and the events the purchase schedules.\<close>

definition run_rng :: rng where
  "run_rng = createRng ''s-0''"

definition first_purchase :: SimulationEvent where
  "first_purchase =
     \<lparr> ev_timeSec = first_arrival, ev_type = purchase, ev_userId = 0, ev_txnId = 0,
       ev_amount = 0, relatedAmount = None, ev_settlement = None, isFraud = None \<rparr>"

definition settlement_of :: "real \<Rightarrow> SettlementResult" where
  "settlement_of closeMean =
     \<lparr> confirmed = True, sr_timeSec = ledger_draw * closeMean, sr_retries = 0, gaveUp = False \<rparr>"

definition first_settlement :: "real \<Rightarrow> SimulationEvent" where
  "first_settlement closeMean =
     \<lparr> ev_timeSec = first_arrival + ledger_draw * closeMean, ev_type = settlement,
       ev_userId = 0, ev_txnId = 0, ev_amount = 0, relatedAmount = None,
       ev_settlement = Some (settlement_of closeMean), isFraud = Some False \<rparr>"

definition first_expiry :: SimulationEvent where
  "first_expiry =
     \<lparr> ev_timeSec = first_arrival + 300, ev_type = hold_expiry, ev_userId = 0, ev_txnId = 0,
       ev_amount = 0, relatedAmount = None, ev_settlement = None, isFraud = Some False \<rparr>"

subsection \<open>Batches of runs\<close>

text \<open>
  The concatenation of two batches of runs; a batch that does not return leaves no
  concatenation.
\<close>

definition concat_batches ::
  "SimulationRunResult list option \<Rightarrow> SimulationRunResult list option
     \<Rightarrow> SimulationRunResult list option" where
  "concat_batches a b =
     (case a of None \<Rightarrow> None
      | Some x \<Rightarrow> (case b of None \<Rightarrow> None | Some y \<Rightarrow> Some (x @ y)))"

text \<open>The spec of the one-purchase run without its user: every run is empty.\<close>

definition no_user_spec :: SimulationSpec where
  "no_user_spec = one_purchase_spec\<lparr> userModel := one_user\<lparr> users := 0 \<rparr> \<rparr>"

section \<open>Rounding to a double\<close>

lemma to_double_0 [simp]: "to_double 0 = 0"
  by (simp add: to_double_def)

lemma round_half_even_int [simp]: "round_half_even (of_int k) = k"
  by (simp add: round_half_even_def)

lemma round_half_even_ge: "of_int k \<le> y \<Longrightarrow> k \<le> round_half_even y"
proof -
  assume "of_int k \<le> y"
  then have "k \<le> \<lfloor>y\<rfloor>" by (simp add: le_floor_iff)
  then show ?thesis by (auto simp: round_half_even_def Let_def)
qed

lemma round_half_even_le: "y \<le> of_int k \<Longrightarrow> round_half_even y \<le> k"
proof -
  assume a: "y \<le> of_int k"
  then have f: "\<lfloor>y\<rfloor> \<le> k" by (simp add: floor_le_iff)
  show ?thesis
  proof (cases "\<lfloor>y\<rfloor> = k")
    case True
    then have "y = of_int k" using a of_int_floor_le[of y] by linarith
    then show ?thesis by simp
  next
    case False
    then have "\<lfloor>y\<rfloor> + 1 \<le> k" using f by simp
    then show ?thesis by (auto simp: round_half_even_def Let_def)
  qed
qed

lemma ulp_pos: "0 < ulp_of x"
  by (simp add: ulp_of_def)

lemma binade_eq: "0 < \<bar>x\<bar> \<Longrightarrow> 2 powr of_int k \<le> \<bar>x\<bar> \<Longrightarrow> \<bar>x\<bar> < 2 powr (of_int k + 1) \<Longrightarrow> binade x = k"
  unfolding binade_def by (subst floor_log_eq_powr_iff) auto

lemma binade_le_52:
  assumes "0 < x" "x < 2 ^ 53"
  shows "binade x \<le> 52"
proof -
  have "x < 2 powr 53" using assms(2) by simp
  then have "log 2 x < 53" using assms(1) by (simp add: log_less_iff)
  then have "\<lfloor>log 2 x\<rfloor> < 53" by (simp add: floor_less_iff)
  then show ?thesis using assms by (simp add: binade_def)
qed

text \<open>Below \<open>2^53\<close> the spacing of the doubles is a negative power of two, so integers are on the grid.\<close>

lemma ulp_inverse_power:
  assumes "0 < x" "x < 2 ^ 53"
  shows "\<exists>j::nat. ulp_of x = 1 / 2 ^ j"
proof -
  let ?e = "max (binade x) (- 1022)"
  have "?e \<le> 52" using binade_le_52[OF assms] by simp
  then obtain j :: nat where j: "int j = 52 - ?e" by (metis diff_ge_0_iff_ge nonneg_int_cases)
  have "ulp_of x = 2 powr (- real j)"
    unfolding ulp_of_def using j by (metis minus_diff_eq of_int_diff of_int_numeral of_int_of_nat_eq)
  also have "\<dots> = 1 / 2 ^ j" by (simp add: powr_minus_divide powr_realpow)
  finally show ?thesis by blast
qed

lemma to_double_int_le:
  assumes "0 < x" "x < 2 ^ 53" "x \<le> of_int k"
  shows "to_double x \<le> of_int k"
proof -
  obtain j :: nat where u: "ulp_of x = 1 / 2 ^ j" using ulp_inverse_power[OF assms(1,2)] by blast
  have "x * 2 ^ j \<le> of_int k * 2 ^ j" using assms(3) by (simp add: mult_right_mono)
  then have "x / ulp_of x \<le> of_int (k * 2 ^ j)" by (simp add: u)
  then have "round_half_even (x / ulp_of x) \<le> k * 2 ^ j" by (rule round_half_even_le)
  then have "of_int (round_half_even (x / ulp_of x)) \<le> (of_int (k * 2 ^ j) :: real)"
    by (simp only: of_int_le_iff)
  then have "of_int (round_half_even (x / ulp_of x)) * ulp_of x \<le> of_int k"
    by (simp add: u pos_divide_le_eq)
  then show ?thesis using assms(1) by (simp add: to_double_def)
qed

lemma to_double_int_ge:
  assumes "0 < x" "x < 2 ^ 53" "of_int k \<le> x"
  shows "of_int k \<le> to_double x"
proof -
  obtain j :: nat where u: "ulp_of x = 1 / 2 ^ j" using ulp_inverse_power[OF assms(1,2)] by blast
  have "of_int k * 2 ^ j \<le> x * 2 ^ j" using assms(3) by (simp add: mult_right_mono)
  then have "of_int (k * 2 ^ j) \<le> x / ulp_of x" by (simp add: u)
  then have "k * 2 ^ j \<le> round_half_even (x / ulp_of x)" by (rule round_half_even_ge)
  then have "(of_int (k * 2 ^ j) :: real) \<le> of_int (round_half_even (x / ulp_of x))"
    by (simp only: of_int_le_iff)
  then have "of_int k \<le> of_int (round_half_even (x / ulp_of x)) * ulp_of x"
    by (simp add: u pos_le_divide_eq)
  then show ?thesis using assms(1) by (simp add: to_double_def)
qed

lemma to_double_int:
  assumes "0 \<le> k" "k < 2 ^ 53"
  shows "to_double (of_int k) = of_int k"
proof (cases "k = 0")
  case True
  then show ?thesis by simp
next
  case False
  then have p: "0 < (of_int k :: real)" "(of_int k :: real) < 2 ^ 53"
    using assms by (simp_all add: of_int_less_numeral_power_cancel_iff)
  show ?thesis using to_double_int_le[OF p, of k] to_double_int_ge[OF p, of k] by simp
qed

lemma to_double_eval:
  assumes "x \<noteq> 0" "2 powr of_int k \<le> \<bar>x\<bar>" "\<bar>x\<bar> < 2 powr (of_int k + 1)" "- 1022 \<le> k"
  shows "to_double x = of_int (round_half_even (x / 2 powr (of_int k - 52))) * 2 powr (of_int k - 52)"
proof -
  have "binade x = k" using binade_eq[of x k] assms by simp
  then have "ulp_of x = 2 powr (of_int k - 52)" using assms(4) by (simp add: ulp_of_def max_def)
  then show ?thesis using assms(1) by (simp add: to_double_def)
qed


section \<open>Properties of the sampler\<close>

subsection \<open>Bounds on the exponential and the logarithm\<close>


lemma exp3_le27: "exp (3::real) \<le> 27"
proof -
  have "exp (3::real) = exp 1 * exp 1 * exp 1" by (simp flip: exp_add)
  also have "\<dots> \<le> 3 * 3 * 3" by (intro mult_mono exp_le) simp_all
  finally show ?thesis by simp
qed


lemma ln100_ge3: "3 \<le> ln (100::real)"
proof -
  have "exp (3::real) \<le> 100" using exp3_le27 by linarith
  then have "ln (exp (3::real)) \<le> ln 100" by (subst ln_le_cancel_iff) simp_all
  then show ?thesis by simp
qed

lemma ln2_le1: "ln (2::real) \<le> 1"
  using ln_le_minus_one[of "2::real"] by simp


subsection \<open>The lognormal fit\<close>




subsection \<open>Degenerate parameters\<close>

lemma sampleGamma_loop_pos_aux:
  assumes "sampleGamma_loop d c sc g = Some r"
  shows "0 < d \<longrightarrow> 0 < sc \<longrightarrow> 0 < fst r"
proof (rule sampleGamma_loop.raw_induct
    [where P = "\<lambda>d c sc g r. 0 < d \<longrightarrow> 0 < sc \<longrightarrow> 0 < fst r", OF _ assms])
  fix f :: "real \<Rightarrow> real \<Rightarrow> real \<Rightarrow> rng \<Rightarrow> (real \<times> rng) option" and d c sc g r
  assume IH: "\<And>d c sc g r. f d c sc g = Some r \<Longrightarrow> 0 < d \<longrightarrow> 0 < sc \<longrightarrow> 0 < fst r"
  assume step: "(case normalSample g of (x, g1) \<Rightarrow>
        let v = 1 + c * x in
        if v \<le> 0 then f d c sc g1
        else let v3 = v * v * v in
          case draw g1 of (u, g2) \<Rightarrow>
            if u < 1 - 0.0331 * x ^ 4 then Some (sc * d * v3, g2)
            else if u = 0 \<or> (0 < u \<and> ln u < 0.5 * x * x + d * (1 - v3 + ln v3))
              then Some (sc * d * v3, g2)
            else f d c sc g2) = Some r"
  show "0 < d \<longrightarrow> 0 < sc \<longrightarrow> 0 < fst r"
  proof (intro impI)
    assume d: "0 < d" and sc: "0 < sc"
    obtain x g1 where ns: "normalSample g = (x, g1)" by (cases "normalSample g")
    obtain u g2 where dr: "draw g1 = (u, g2)" by (cases "draw g1")
    show "0 < fst r"
    proof (cases "1 + c * x \<le> 0")
      case True
      then have "f d c sc g1 = Some r" using step ns by (simp add: Let_def)
      then show ?thesis using IH d sc by blast
    next
      case False
      then have v: "0 < (1 + c * x) * (1 + c * x) * (1 + c * x)" by simp
      have "r = (sc * d * ((1 + c * x) * (1 + c * x) * (1 + c * x)), g2) \<or> f d c sc g2 = Some r"
        using step ns dr False by (simp add: Let_def split: if_splits)
      then show ?thesis
      proof
        assume "r = (sc * d * ((1 + c * x) * (1 + c * x) * (1 + c * x)), g2)"
        then show ?thesis using d sc v by simp
      next
        assume "f d c sc g2 = Some r"
        then show ?thesis using IH d sc by blast
      qed
    qed
  qed
qed

lemma sampleGamma_loop_pos:
  "sampleGamma_loop d c sc g = Some (y, g') \<Longrightarrow> 0 < d \<Longrightarrow> 0 < sc \<Longrightarrow> 0 < y"
  using sampleGamma_loop_pos_aux by fastforce

lemma sampleGamma_pos:
  assumes "sampleGamma g sh sc = Some (y, g')" "0 < sh" "0 < sc"
  shows "0 < y"
proof (cases "sh < 1")
  case True
  obtain r g1 where dr: "draw g = (r, g1)" by (cases "draw g")
  from assms True dr obtain y0 where
    y0: "sampleGamma_main g1 (sh + 1) sc = Some (y0, g')"
    and y: "y = y0 * max r (1 / 10 ^ 12) powr (1 / sh)"
    by (auto simp: sampleGamma_def Let_def split: option.splits)
  have "0 < y0" using y0 assms(2,3) sampleGamma_loop_pos[of "sh + 1 - 1/3" _ sc g1 y0 g']
    by (simp add: sampleGamma_main_def Let_def)
  moreover have "0 < max r (1 / 10 ^ 12) powr (1 / sh)" by (simp add: max_def)
  ultimately show ?thesis using y by simp
next
  case False
  then show ?thesis using assms sampleGamma_loop_pos[of "sh - 1/3" _ sc g y g']
    by (simp add: sampleGamma_def sampleGamma_main_def Let_def)
qed

lemma draw_const: "draw (const_rng c) = (c, const_rng c)"
  by (simp add: draw_def const_rng_def)

lemma normalSample_half: "normalSample (const_rng (1/2)) = (- sqrt (2 * ln 2), const_rng (1/2))"
proof -
  have "ln (1/2::real) = - ln 2" by (simp add: ln_div)
  then show ?thesis by (simp add: normalSample_def draw_const max_def)
qed

lemma sampleGamma_loop_half:
  "sampleGamma_loop (2/3) (1 / sqrt 6) 1 (const_rng (1/2)) =
     Some (1 * (2/3) * ((1 + 1 / sqrt 6 * (- sqrt (2 * ln 2)))
                       * (1 + 1 / sqrt 6 * (- sqrt (2 * ln 2)))
                       * (1 + 1 / sqrt 6 * (- sqrt (2 * ln 2)))), const_rng (1/2))"
proof -
  have a: "sqrt (2 * ln 2) < sqrt 6" using ln2_le1 by simp
  have v: "\<not> 1 + 1 / sqrt 6 * (- sqrt (2 * ln 2)) \<le> 0" using a by (simp add: field_simps)
  have "(- sqrt (2 * ln 2)) ^ 4 = (2 * ln 2) ^ 2"
  proof -
    have ss: "sqrt (2 * ln (2::real)) * sqrt (2 * ln 2) = 2 * ln 2" by simp
    have "(- sqrt (2 * ln 2)) ^ 4
        = (sqrt (2 * ln (2::real)) * sqrt (2 * ln 2)) * (sqrt (2 * ln 2) * sqrt (2 * ln 2))"
      by (simp add: power4_eq_xxxx)
    also have "\<dots> = (2 * ln 2)\<^sup>2" unfolding ss by (simp add: power2_eq_square)
    finally show ?thesis .
  qed
  also have "\<dots> \<le> 2\<^sup>2" using ln2_le1 by (intro power_mono) simp_all
  finally have x4: "(- sqrt (2 * ln 2)) ^ 4 \<le> (4::real)" by simp
  have u: "(1/2::real) < 1 - 0.0331 * (- sqrt (2 * ln 2)) ^ 4" using x4 by simp
  show ?thesis
    by (subst sampleGamma_loop.simps)
       (simp only: normalSample_half draw_const Let_def prod.case v u if_True if_False)
qed

lemma degenerate_gamma_loop:
  "sampleDistribution g degenerate_gamma = sampleGamma_loop (2/3) (1 / sqrt 6) 1 g"
  by (simp add: sampleDistribution_def gammaParamsFromMeanP95_def sampleGamma_def
      sampleGamma_main_def degenerate_gamma_def)

text \<open>
  C6, as stated: with a non-positive mean or p95 \<open>sampleDistribution\<close> returns exactly 0,
  for the gamma kind too.  It fails for the gamma kind with mean 0 and p95 0 on the
  generator that always returns 0.5: the call returns, and what it returns is positive.
\<close>

theorem sampleDistribution_zero_counterexample:
  "case sampleDistribution (const_rng (1/2)) degenerate_gamma of
     None \<Rightarrow> False | Some (y, g) \<Rightarrow> 0 < y"
proof -
  have a: "sqrt (2 * ln 2) < sqrt 6" using ln2_le1 by simp
  have v: "0 < 1 + 1 / sqrt 6 * (- sqrt (2 * ln 2))" using a by (simp add: field_simps)
  show ?thesis unfolding degenerate_gamma_loop sampleGamma_loop_half using v by simp
qed

text \<open>
  C6, amended: with a non-positive mean or p95 the lognormal kind returns exactly 0 and
  leaves the generator untouched; the gamma kind draws from the gamma distribution of
  shape 1 and scale 1, and every sample it returns is positive.
\<close>

theorem sampleDistribution_degenerate:
  assumes "mean spec \<le> 0 \<or> p95 spec \<le> 0"
  shows "sampleDistribution g spec
           = (if dtype spec = gamma then sampleGamma g 1 1 else Some (0, g))
         \<and> (dtype spec = gamma \<longrightarrow>
              (\<forall>y g'. sampleDistribution g spec = Some (y, g') \<longrightarrow> 0 < y))"
proof -
  have eq: "sampleDistribution g spec
      = (if dtype spec = gamma then sampleGamma g 1 1 else Some (0, g))"
    using assms by (auto simp: sampleDistribution_def gammaParamsFromMeanP95_def
        sampleLognormal_def Let_def)
  have "0 < y" if "dtype spec = gamma" "sampleDistribution g spec = Some (y, g')" for y g'
    using that eq sampleGamma_pos[of g 1 1 y g'] by simp
  then show ?thesis using eq by blast
qed

theorem sampleDistribution_degenerate_witness:
  "(mean degenerate_lognormal \<le> 0 \<or> p95 degenerate_lognormal \<le> 0)
   \<and> sampleDistribution (const_rng (1/2)) degenerate_lognormal = Some (0, const_rng (1/2))
   \<and> (mean degenerate_gamma \<le> 0 \<or> p95 degenerate_gamma \<le> 0)
   \<and> dtype degenerate_gamma = gamma
   \<and> sampleDistribution (const_rng (1/2)) degenerate_gamma = sampleGamma (const_rng (1/2)) 1 1
   \<and> (\<exists>y g'. sampleDistribution (const_rng (1/2)) degenerate_gamma = Some (y, g') \<and> 0 < y)"
proof -
  have l: "mean degenerate_lognormal \<le> 0 \<or> p95 degenerate_lognormal \<le> 0"
    by (simp add: degenerate_lognormal_def)
  have g: "mean degenerate_gamma \<le> 0 \<or> p95 degenerate_gamma \<le> 0"
    by (simp add: degenerate_gamma_def)
  have dl: "dtype degenerate_lognormal \<noteq> gamma" by (simp add: degenerate_lognormal_def)
  have dg: "dtype degenerate_gamma = gamma" by (simp add: degenerate_gamma_def)
  obtain y g' where some: "sampleDistribution (const_rng (1/2)) degenerate_gamma = Some (y, g')"
    unfolding degenerate_gamma_loop sampleGamma_loop_half by blast
  have "0 < y"
    using sampleDistribution_degenerate[OF g, of "const_rng (1/2)"] dg some by blast
  then have ex: "\<exists>y g'. sampleDistribution (const_rng (1/2)) degenerate_gamma = Some (y, g') \<and> 0 < y"
    using some by blast
  have A: "sampleDistribution (const_rng (1/2)) degenerate_lognormal = Some (0, const_rng (1/2))"
    using sampleDistribution_degenerate[OF l, of "const_rng (1/2)"] dl by simp
  have B: "sampleDistribution (const_rng (1/2)) degenerate_gamma = sampleGamma (const_rng (1/2)) 1 1"
    using sampleDistribution_degenerate[OF g, of "const_rng (1/2)"] dg by simp
  show ?thesis using l g dg A B ex by blast
qed

subsection \<open>Percentiles\<close>

lemma to_double_P95: "to_double P95 = P95"
  unfolding P95_def
  by (subst to_double_eval[where k = "- 1"]) (simp_all add: powr_neg_numeral round_half_even_def)

lemma to_double_product_floor:
  assumes "0 \<le> x" "x < 2 ^ 53"
  shows "\<lfloor>x\<rfloor> \<le> \<lfloor>to_double x\<rfloor>" "\<lfloor>to_double x\<rfloor> \<le> \<lfloor>x\<rfloor> + 1"
proof -
  show "\<lfloor>x\<rfloor> \<le> \<lfloor>to_double x\<rfloor>"
  proof (cases "x = 0")
    case True
    then show ?thesis by simp
  next
    case False
    then have p: "0 < x" using assms(1) by simp
    have "of_int \<lfloor>x\<rfloor> \<le> to_double x"
      by (rule to_double_int_ge[OF p assms(2)]) simp
    then show ?thesis by (simp add: le_floor_iff)
  qed
  show "\<lfloor>to_double x\<rfloor> \<le> \<lfloor>x\<rfloor> + 1"
  proof (cases "x = 0")
    case True
    then show ?thesis by simp
  next
    case False
    then have p: "0 < x" using assms(1) by simp
    have "x \<le> of_int (\<lfloor>x\<rfloor> + 1)" by linarith
    then have "to_double x \<le> of_int (\<lfloor>x\<rfloor> + 1)"
      by (rule to_double_int_le[OF p assms(2)])
    then show ?thesis by (simp add: floor_le_iff)
  qed
qed

lemma to_double_3: "to_double (27021597764222975 / 9007199254740992) = 3"
  by (subst to_double_eval[where k = 1]) (simp_all add: powr_neg_numeral round_half_even_def)

text \<open>
  C8, as stated: \<open>percentile\<close> returns the nearest-rank percentile, the element at 1-based
  rank \<open>ceil (p * n)\<close> of the sorted list.  It fails on the list 1, 2 at the double
  \<open>0.95\<close>: the nearest rank is 2 and selects 2, the source selects index
  \<open>floor (0.95 * 1) = 0\<close> and returns 1.
\<close>

theorem percentile_nearest_rank_counterexample:
  "percentile [1, 2] P95 = 1 \<and> nearest_rank_percentile [1, 2] P95 = 2"
proof -
  have "\<lfloor>P95\<rfloor> = 0" "\<lceil>P95 * 2\<rceil> = 2" by (simp_all add: P95_def) 
  then show ?thesis
    by (simp add: percentile_def nearest_rank_percentile_def to_double_P95)
qed

text \<open>
  C8, amended: for a non-empty list (of fewer than \<open>2^32\<close> values, as every array of the
  source) and \<open>p\<close> between 0 and 1, \<open>percentile\<close> returns the element of the ascending
  sorted copy at the 0-based index \<open>floor q\<close>, where \<open>q\<close> is the double product
  \<open>p * (n - 1)\<close>; that index is within the list, and it is \<open>floor (p * (n - 1))\<close> of the
  exact product or, when the product rounds up to an integer, one more.  (The function
  sorts a copy; its argument is a value here.)
\<close>

theorem percentile_floor_index:
  assumes "vals \<noteq> []" "length vals < 2 ^ 32" "0 \<le> p" "p \<le> 1"
  shows "percentile vals p = sort vals ! nat \<lfloor>to_double (p * (real (length vals) - 1))\<rfloor>
     \<and> nat \<lfloor>to_double (p * (real (length vals) - 1))\<rfloor> < length vals
     \<and> \<lfloor>p * (real (length vals) - 1)\<rfloor> \<le> \<lfloor>to_double (p * (real (length vals) - 1))\<rfloor>
     \<and> \<lfloor>to_double (p * (real (length vals) - 1))\<rfloor> \<le> \<lfloor>p * (real (length vals) - 1)\<rfloor> + 1"
proof -
  let ?n = "length vals"
  let ?x = "p * (real ?n - 1)"
  have n: "0 < ?n" using assms by simp
  have n1: "0 \<le> real ?n - 1" using n by (simp add: Suc_le_eq)
  have ge0: "0 \<le> ?x" using assms(3) n1 by (rule mult_nonneg_nonneg)
  have le: "?x \<le> real ?n - 1"
    using mult_right_mono[OF assms(4) n1] by simp
  have "real ?n < 2 ^ 32" using assms(2) by (metis of_nat_less_numeral_power_cancel_iff)
  then have small: "?x < 2 ^ 53" using le by simp
  note fl = to_double_product_floor[OF ge0 small]
  have f0: "0 \<le> \<lfloor>to_double ?x\<rfloor>"
    using fl(1) ge0 by (metis floor_mono floor_zero order_trans)
  have "to_double ?x \<le> of_int (int ?n - 1)"
  proof (cases "?x = 0")
    case True
    have "to_double ?x = 0" by (simp only: True to_double_0)
    moreover have "(0::real) \<le> of_int (int ?n - 1)" using n1 by simp
    ultimately show ?thesis by (simp only:)
  next
    case False
    then have pos: "0 < ?x" using ge0 by (metis order_le_less)
    have "?x \<le> of_int (int ?n - 1)" using le by simp
    then show ?thesis by (rule to_double_int_le[OF pos small])
  qed
  then have f1: "\<lfloor>to_double ?x\<rfloor> \<le> int ?n - 1" by (simp add: floor_le_iff) linarith
  have idx: "min (int ?n - 1) (max 0 \<lfloor>to_double ?x\<rfloor>) = \<lfloor>to_double ?x\<rfloor>"
    using f0 f1 by linarith
  have lt: "nat \<lfloor>to_double ?x\<rfloor> < ?n" using f0 f1 n by linarith
  have "percentile vals p = sort vals ! nat \<lfloor>to_double ?x\<rfloor>"
    using assms(1) unfolding percentile_def Let_def length_sort idx by simp
  then show ?thesis using lt fl by simp
qed

theorem percentile_floor_index_witness:
  "[1, 2, 3, 4, 5, 6 :: real] \<noteq> [] \<and> length [1, 2, 3, 4, 5, 6 :: real] < 2 ^ 32
   \<and> (0::real) \<le> 5404319552844595 / 2 ^ 53 \<and> (5404319552844595 / 2 ^ 53 :: real) \<le> 1
   \<and> \<lfloor>5404319552844595 / 2 ^ 53 * (real (length [1, 2, 3, 4, 5, 6 :: real]) - 1)\<rfloor> = 2
   \<and> \<lfloor>to_double (5404319552844595 / 2 ^ 53 * (real (length [1, 2, 3, 4, 5, 6 :: real]) - 1))\<rfloor> = 3
   \<and> percentile [1, 2, 3, 4, 5, 6] (5404319552844595 / 2 ^ 53) = 4"
  using percentile_floor_index[of "[1, 2, 3, 4, 5, 6]" "5404319552844595 / 2 ^ 53"]
  by (simp add: to_double_3)

section \<open>Properties of the settlement simulator\<close>

lemma settle_loop_inv:
  "settle_loop spec p g t r k = (res, k', g') \<Longrightarrow>
     confirmed res = (\<not> gaveUp res)
     \<and> r \<le> sr_retries res
     \<and> (\<forall>n. maxRetries spec = real n \<longrightarrow> r \<le> n \<longrightarrow> sr_retries res \<le> n)
     \<and> k' + r \<le> sr_retries res + 1 + k"
proof (induction spec p g t r k rule: settle_loop.induct)
  case (1 spec p g t r k)
  obtain interval g1 where
    a: "sampleLedgerInterval g (ledgerCloseMean spec) (ledgerJitter spec) = (interval, g1)"
    by (cases "sampleLedgerInterval g (ledgerCloseMean spec) (ledgerJitter spec)")
  obtain u g2 where b: "draw g1 = (u, g2)" by (cases "draw g1")
  obtain u' g3 where c: "draw g2 = (u', g3)" by (cases "draw g2")
  show ?case
  proof (cases "u' < p")
    case True
    then show ?thesis using "1.prems" a b c
      by (subst (asm) settle_loop.simps) (auto simp: Let_def)
  next
    case np: False
    show ?thesis
    proof (cases "real r \<ge> maxRetries spec")
      case True
      then show ?thesis using "1.prems" a b c np
        by (subst (asm) settle_loop.simps) (auto simp: Let_def)
    next
      case nr: False
      let ?t3 = "t + u * interval + (interval - u * interval)
                 + backoffBaseMs spec * backoffMultiplier spec ^ (r + 1 - 1) / 1000"
      show ?thesis
      proof (cases "?t3 > maxSettleWindowSec spec")
        case True
        then show ?thesis using "1.prems" a b c np nr
          by (subst (asm) settle_loop.simps) (auto simp: Let_def)
      next
        case False
        have rec: "settle_loop spec p g3 ?t3 (r + 1) (Suc k) = (res, k', g')"
          using "1.prems" a b c np nr False
          by (subst (asm) settle_loop.simps) (simp add: Let_def)
        have IH: "confirmed res = (\<not> gaveUp res)
          \<and> r + 1 \<le> sr_retries res
          \<and> (\<forall>n. maxRetries spec = real n \<longrightarrow> r + 1 \<le> n \<longrightarrow> sr_retries res \<le> n)
          \<and> k' + (r + 1) \<le> sr_retries res + 1 + Suc k"
          using "1.IH"[OF a[symmetric] b[symmetric] c[symmetric] refl refl np refl nr
              refl refl refl False rec] .
        show ?thesis using IH nr by auto
      qed
    qed
  qed
qed

lemma simulateSettlement_run_Some:
  "simulateSettlement g spec start og = Some (res, g')
     \<longleftrightarrow> (\<exists>k. simulateSettlement_run g spec start og = Some (res, k, g'))"
  by (auto simp: simulateSettlement_def)

lemma sampleDistribution_lognormal_Some:
  "dtype spec = lognormal \<Longrightarrow> sampleDistribution g spec \<noteq> None"
  by (simp add: sampleDistribution_def)

lemma settle_fixture_run:
  "simulateSettlement_run (const_rng (1/2)) stellar_fixture 0 outage_off
     = Some (\<lparr> confirmed = False, sr_timeSec = 39 / 2, sr_retries = 2, gaveUp = True \<rparr>,
             3, const_rng (1/2))"
proof -
  have i: "sampleLedgerInterval (const_rng (1/2)) 6 0 = (6, const_rng (1/2))"
    by (simp add: sampleLedgerInterval_def)
  have l3: "settle_loop stellar_fixture (3/10) (const_rng (1/2)) (27/2) (Suc (Suc 0)) (Suc (Suc 0))
     = (\<lparr> confirmed = False, sr_timeSec = 39 / 2, sr_retries = Suc (Suc 0), gaveUp = True \<rparr>,
        Suc (Suc (Suc 0)), const_rng (1/2))"
    by (subst settle_loop.simps) (simp add: stellar_fixture_def i draw_const Let_def)
  have l2: "settle_loop stellar_fixture (3/10) (const_rng (1/2)) (13/2) (Suc 0) (Suc 0)
     = settle_loop stellar_fixture (3/10) (const_rng (1/2)) (27/2) (Suc (Suc 0)) (Suc (Suc 0))"
    by (subst settle_loop.simps) (simp add: stellar_fixture_def i draw_const Let_def)
  have l1: "settle_loop stellar_fixture (3/10) (const_rng (1/2)) 0 0 0
     = settle_loop stellar_fixture (3/10) (const_rng (1/2)) (13/2) (Suc 0) (Suc 0)"
    by (subst settle_loop.simps) (simp add: stellar_fixture_def i draw_const Let_def)
  have d: "sampleDistribution (const_rng (1/2)) (submissionDelay stellar_fixture)
     = Some (0, const_rng (1/2))"
    by (simp add: stellar_fixture_def degenerate_lognormal_def sampleDistribution_def
        sampleLognormal_def)
  have p: "min (999 / 1000) (max 0 (inclusionProbability stellar_fixture)) = (3/10 :: real)"
    by (simp add: stellar_fixture_def)
  show ?thesis
    unfolding simulateSettlement_run_def Let_def d
    by (simp add: outage_off_def p l1 l2 l3 numeral_2_eq_2 numeral_3_eq_3)
qed

text \<open>
  C10: every result that \<open>simulateSettlement\<close> returns is confirmed exactly when it did
  not give up, and when \<open>maxRetries\<close> is a non-negative integer its \<open>retries\<close> is at most
  \<open>maxRetries\<close> (and at least 0, being a natural number).
\<close>

theorem simulateSettlement_result_shape:
  assumes "simulateSettlement g spec start og = Some (res, g')"
  shows "confirmed res = (\<not> gaveUp res)
         \<and> (\<forall>n. maxRetries spec = real n \<longrightarrow> 0 \<le> sr_retries res \<and> sr_retries res \<le> n)"
proof -
  from assms obtain k where "simulateSettlement_run g spec start og = Some (res, k, g')"
    by (auto simp: simulateSettlement_run_Some)
  then obtain p g1 t where "settle_loop spec p g1 t 0 0 = (res, k, g')"
    by (auto simp: simulateSettlement_run_def Let_def split: option.splits)
  from settle_loop_inv[OF this] show ?thesis by simp
qed

theorem simulateSettlement_result_shape_witness:
  "simulateSettlement (const_rng (1/2)) stellar_fixture 0 outage_off
     = Some (\<lparr> confirmed = False, sr_timeSec = 39 / 2, sr_retries = 2, gaveUp = True \<rparr>,
             const_rng (1/2))
   \<and> maxRetries stellar_fixture = real 2
   \<and> confirmed \<lparr> confirmed = False, sr_timeSec = 39 / 2, sr_retries = 2, gaveUp = True \<rparr>
       = (\<not> gaveUp \<lparr> confirmed = False, sr_timeSec = 39 / 2, sr_retries = 2, gaveUp = True \<rparr>)
   \<and> sr_retries \<lparr> confirmed = False, sr_timeSec = 39 / 2, sr_retries = 2, gaveUp = True \<rparr> \<le> 2"
proof -
  have r: "simulateSettlement (const_rng (1/2)) stellar_fixture 0 outage_off
     = Some (\<lparr> confirmed = False, sr_timeSec = 39 / 2, sr_retries = 2, gaveUp = True \<rparr>,
             const_rng (1/2))"
    by (simp add: simulateSettlement_def settle_fixture_run)
  have m: "maxRetries stellar_fixture = real 2" by (simp add: stellar_fixture_def)
  show ?thesis using simulateSettlement_result_shape[OF r] r m by simp
qed

text \<open>
  C9, as stated: for every generator \<open>simulateSettlement\<close> returns.  It fails when the
  submission delay is of the gamma kind: on the generator that alternates 0.01 and 0.5
  the accept/reject loop of \<open>sampleGamma\<close> rejects every candidate, and the call never
  returns although \<open>maxRetries\<close> is 2.
\<close>

lemma normalSample_alt: "normalSample alt_rng = (- sqrt (2 * ln 100), alt_rng)"
proof -
  have "ln (1/100::real) = - ln 100" by (simp add: ln_div)
  moreover have "(\<lambda>n. alt_rng (Suc (Suc n))) = alt_rng"
    by (rule ext) (simp add: alt_rng_def)
  ultimately show ?thesis by (simp add: normalSample_def draw_def max_def alt_rng_def)
qed

lemma sampleGamma_loop_alt_aux:
  assumes "sampleGamma_loop d c sc g = Some r"
  shows "\<not> (d = 2/3 \<and> c = 1 / sqrt 6 \<and> g = alt_rng)"
proof (rule sampleGamma_loop.raw_induct
    [where P = "\<lambda>d c sc g r. \<not> (d = 2/3 \<and> c = 1 / sqrt 6 \<and> g = alt_rng)", OF _ assms])
  fix f :: "real \<Rightarrow> real \<Rightarrow> real \<Rightarrow> rng \<Rightarrow> (real \<times> rng) option" and d c sc g r
  assume IH: "\<And>d c sc g r. f d c sc g = Some r
      \<Longrightarrow> \<not> (d = 2/3 \<and> c = 1 / sqrt 6 \<and> g = alt_rng)"
  assume step: "(case normalSample g of (x, g1) \<Rightarrow>
        let v = 1 + c * x in
        if v \<le> 0 then f d c sc g1
        else let v3 = v * v * v in
          case draw g1 of (u, g2) \<Rightarrow>
            if u < 1 - 0.0331 * x ^ 4 then Some (sc * d * v3, g2)
            else if u = 0 \<or> (0 < u \<and> ln u < 0.5 * x * x + d * (1 - v3 + ln v3))
              then Some (sc * d * v3, g2)
            else f d c sc g2) = Some r"
  show "\<not> (d = 2/3 \<and> c = 1 / sqrt 6 \<and> g = alt_rng)"
  proof
    assume h: "d = 2/3 \<and> c = 1 / sqrt 6 \<and> g = alt_rng"
    have "sqrt 6 \<le> sqrt (2 * ln 100)" using ln100_ge3 by simp
    then have v: "1 + 1 / sqrt 6 * (- sqrt (2 * ln 100)) \<le> 0" by (simp add: field_simps)
    have "f d c sc alt_rng = Some r" using step h v by (simp add: normalSample_alt Let_def)
    then show False using IH h by blast
  qed
qed

lemma sampleDistribution_alt_diverges: "sampleDistribution alt_rng degenerate_gamma = None"
  unfolding degenerate_gamma_loop
  using sampleGamma_loop_alt_aux[of "2/3" "1 / sqrt 6" 1 alt_rng]
  by (cases "sampleGamma_loop (2/3) (1 / sqrt 6) 1 alt_rng") auto

theorem simulateSettlement_returns_counterexample:
  "maxRetries (stellar_fixture\<lparr> submissionDelay := degenerate_gamma \<rparr>) = real 2
   \<and> simulateSettlement alt_rng (stellar_fixture\<lparr> submissionDelay := degenerate_gamma \<rparr>) 0 outage_off
       = None"
  by (simp add: simulateSettlement_def simulateSettlement_run_def Let_def
      sampleDistribution_alt_diverges stellar_fixture_def)

text \<open>
  C9, amended: when \<open>maxRetries\<close> is a non-negative integer and the draw of the submission
  delay returns (it always does for the lognormal kind), \<open>simulateSettlement\<close> returns a
  result, confirmed or given up, after at most \<open>maxRetries + 1\<close> passes through its retry
  loop.
\<close>

theorem simulateSettlement_returns:
  assumes "maxRetries spec = real n"
    and "dtype (submissionDelay spec) = lognormal
         \<or> sampleDistribution g (submissionDelay spec) \<noteq> None"
  shows "\<exists>res passes g'.
           simulateSettlement_run g spec start og = Some (res, passes, g')
           \<and> simulateSettlement g spec start og = Some (res, g')
           \<and> passes \<le> n + 1
           \<and> (confirmed res \<or> gaveUp res)"
proof -
  have "sampleDistribution g (submissionDelay spec) \<noteq> None"
    using assms(2) sampleDistribution_lognormal_Some by blast
  then obtain ms g1 where d: "sampleDistribution g (submissionDelay spec) = Some (ms, g1)"
    by (cases "sampleDistribution g (submissionDelay spec)") auto
  then obtain p t where
    run: "simulateSettlement_run g spec start og = Some (settle_loop spec p g1 t 0 0)"
    by (simp add: simulateSettlement_run_def Let_def)
  obtain res passes g' where l: "settle_loop spec p g1 t 0 0 = (res, passes, g')"
    by (cases "settle_loop spec p g1 t 0 0")
  from settle_loop_inv[OF l] assms(1) have "passes \<le> n + 1" "confirmed res \<or> gaveUp res"
    by auto
  then show ?thesis using run l by (auto simp: simulateSettlement_def)
qed

theorem simulateSettlement_returns_witness:
  "maxRetries stellar_fixture = real 2
   \<and> dtype (submissionDelay stellar_fixture) = lognormal
   \<and> (\<exists>res passes g'.
        simulateSettlement_run (const_rng (1/2)) stellar_fixture 0 outage_off
          = Some (res, passes, g')
        \<and> simulateSettlement (const_rng (1/2)) stellar_fixture 0 outage_off = Some (res, g')
        \<and> passes \<le> 2 + 1
        \<and> (confirmed res \<or> gaveUp res))"
proof -
  have m: "maxRetries stellar_fixture = real 2" by (simp add: stellar_fixture_def)
  have l: "dtype (submissionDelay stellar_fixture) = lognormal"
    by (simp add: stellar_fixture_def degenerate_lognormal_def)
  show ?thesis
    using simulateSettlement_returns[OF m disjI1[OF l], of "const_rng (1/2)" 0 outage_off] m l
    by simp
qed

section \<open>The event queue is a min-heap\<close>

lemma bubbleUp_length [simp]: "length (bubbleUp d i) = length d"
proof (induction d i rule: bubbleUp.induct)
  case (1 d i)
  show ?case
  proof (cases "0 < i \<and> \<not> ev_timeSec (d ! ((i - 1) div 2)) \<le> ev_timeSec (d ! i)")
    case True
    then show ?thesis using 1 by (subst bubbleUp.simps) (simp add: Let_def)
  next
    case False
    then show ?thesis by (subst bubbleUp.simps) (auto simp: Let_def)
  qed
qed

lemma bubbleUp_mset: "i < length d \<Longrightarrow> mset (bubbleUp d i) = mset d"
proof (induction d i rule: bubbleUp.induct)
  case (1 d i)
  show ?case
  proof (cases "0 < i \<and> \<not> ev_timeSec (d ! ((i - 1) div 2)) \<le> ev_timeSec (d ! i)")
    case True
    let ?p = "(i - 1) div 2"
    have p: "?p < i" using True by arith
    have "mset (bubbleUp (d[?p := d ! i, i := d ! ?p]) ?p) = mset (d[?p := d ! i, i := d ! ?p])"
      using 1 True p by (simp add: Let_def)
    also have "\<dots> = mset d" using p "1.prems" by (simp add: mset_swap)
    finally show ?thesis using True by (subst bubbleUp.simps) (simp add: Let_def)
  next
    case False
    then show ?thesis by (subst bubbleUp.simps) (auto simp: Let_def)
  qed
qed

lemma bubbleUp_heap:
  assumes "i < length d"
    and "\<forall>j<length d. 0 < j \<and> j \<noteq> i \<longrightarrow> ev_timeSec (d ! ((j - 1) div 2)) \<le> ev_timeSec (d ! j)"
    and "\<forall>j<length d. 0 < j \<and> (j - 1) div 2 = i \<and> 0 < i
           \<longrightarrow> ev_timeSec (d ! ((i - 1) div 2)) \<le> ev_timeSec (d ! j)"
  shows "heap_ok (bubbleUp d i)"
  using assms
proof (induction d i rule: bubbleUp.induct)
  case (1 d i)
  let ?p = "(i - 1) div 2"
  show ?case
  proof (cases "0 < i")
    case False
    then have "bubbleUp d i = d" by (subst bubbleUp.simps) simp
    moreover have "heap_ok d" using "1.prems"(2) False by (auto simp: heap_ok_def)
    ultimately show ?thesis by simp
  next
    case pos: True
    show ?thesis
    proof (cases "ev_timeSec (d ! ?p) \<le> ev_timeSec (d ! i)")
      case True
      then have "bubbleUp d i = d" using pos by (subst bubbleUp.simps) (simp add: Let_def)
      moreover have "heap_ok d" unfolding heap_ok_def
      proof (intro allI impI)
        fix j assume "j < length d" "0 < j"
        then show "ev_timeSec (d ! ((j - 1) div 2)) \<le> ev_timeSec (d ! j)"
          using "1.prems"(2) True by (cases "j = i") auto
      qed
      ultimately show ?thesis by simp
    next
      case False
      let ?d = "d[?p := d ! i, i := d ! ?p]"
      have p: "?p < i" using pos by arith
      have pl: "?p < length d" using p "1.prems"(1) by simp
      have eq: "bubbleUp d i = bubbleUp ?d ?p"
        using pos False by (subst bubbleUp.simps) (simp add: Let_def)
      have lt: "ev_timeSec (d ! i) < ev_timeSec (d ! ?p)" using False by simp
      have A: "\<forall>j<length ?d. 0 < j \<and> j \<noteq> ?p
          \<longrightarrow> ev_timeSec (?d ! ((j - 1) div 2)) \<le> ev_timeSec (?d ! j)"
      proof (intro allI impI)
        fix j assume j: "j < length ?d" and "0 < j \<and> j \<noteq> ?p"
        then have j0: "0 < j" and jp: "j \<noteq> ?p" by auto
        have jl: "j < length d" using j by simp
        have pj: "(j - 1) div 2 < j" using j0 by arith
        show "ev_timeSec (?d ! ((j - 1) div 2)) \<le> ev_timeSec (?d ! j)"
        proof (cases "j = i")
          case True
          then show ?thesis using lt p pl "1.prems"(1) by simp
        next
          case ji: False
          have dj: "?d ! j = d ! j" using ji jp jl by simp
          show ?thesis
          proof (cases "(j - 1) div 2 = i")
            case True
            then have "?d ! ((j - 1) div 2) = d ! ?p" using "1.prems"(1) by simp
            moreover have "ev_timeSec (d ! ?p) \<le> ev_timeSec (d ! j)"
              using "1.prems"(3) jl j0 True pos by blast
            ultimately show ?thesis using dj by simp
          next
            case npi: False
            show ?thesis
            proof (cases "(j - 1) div 2 = ?p")
              case True
              then have "?d ! ((j - 1) div 2) = d ! i" using p pl by simp
              moreover have "ev_timeSec (d ! ?p) \<le> ev_timeSec (d ! j)"
                using "1.prems"(2) jl j0 ji True by metis
              ultimately show ?thesis using dj lt by simp
            next
              case False
              then have "?d ! ((j - 1) div 2) = d ! ((j - 1) div 2)" using npi by simp
              then show ?thesis using dj "1.prems"(2) jl j0 ji by simp
            qed
          qed
        qed
      qed
      have B: "\<forall>j<length ?d. 0 < j \<and> (j - 1) div 2 = ?p \<and> 0 < ?p
          \<longrightarrow> ev_timeSec (?d ! ((?p - 1) div 2)) \<le> ev_timeSec (?d ! j)"
      proof (intro allI impI)
        fix j assume j: "j < length ?d" and h: "0 < j \<and> (j - 1) div 2 = ?p \<and> 0 < ?p"
        have jl: "j < length d" using j by simp
        have pp: "(?p - 1) div 2 < ?p" using h by arith
        have gp: "?d ! ((?p - 1) div 2) = d ! ((?p - 1) div 2)" using pp p by simp
        have g: "ev_timeSec (d ! ((?p - 1) div 2)) \<le> ev_timeSec (d ! ?p)"
          using "1.prems"(2) pl h p by (metis less_irrefl)
        have jp: "j \<noteq> ?p" using h by arith
        show "ev_timeSec (?d ! ((?p - 1) div 2)) \<le> ev_timeSec (?d ! j)"
        proof (cases "j = i")
          case True
          then show ?thesis using gp g "1.prems"(1) by simp
        next
          case False
          then have "?d ! j = d ! j" using jp by simp
          moreover have "ev_timeSec (d ! ?p) \<le> ev_timeSec (d ! j)"
            using "1.prems"(2) jl h False by metis
          ultimately show ?thesis using gp g by simp
        qed
      qed
      have "heap_ok (bubbleUp ?d ?p)"
        using "1.IH"[OF pos refl False _ A B] pl by simp
      then show ?thesis using eq by simp
    qed
  qed
qed

lemma push_length [simp]: "length (push d x) = Suc (length d)"
  by (simp add: push_def)

lemma push_mset [simp]: "mset (push d x) = add_mset x (mset d)"
  by (simp add: push_def bubbleUp_mset)

lemma push_heap: "heap_ok d \<Longrightarrow> heap_ok (push d x)"
  unfolding push_def
proof (rule bubbleUp_heap)
  assume h: "heap_ok d"
  show "length (d @ [x]) - 1 < length (d @ [x])" by simp
  show "\<forall>j<length (d @ [x]). 0 < j \<and> j \<noteq> length (d @ [x]) - 1
      \<longrightarrow> ev_timeSec ((d @ [x]) ! ((j - 1) div 2)) \<le> ev_timeSec ((d @ [x]) ! j)"
  proof (intro allI impI)
    fix j assume "j < length (d @ [x])" "0 < j \<and> j \<noteq> length (d @ [x]) - 1"
    then have j: "j < length d" "0 < j" by auto
    then have "(j - 1) div 2 < length d" by arith
    then show "ev_timeSec ((d @ [x]) ! ((j - 1) div 2)) \<le> ev_timeSec ((d @ [x]) ! j)"
      using h j by (simp add: heap_ok_def nth_append)
  qed
  show "\<forall>j<length (d @ [x]). 0 < j \<and> (j - 1) div 2 = length (d @ [x]) - 1 \<and> 0 < length (d @ [x]) - 1
      \<longrightarrow> ev_timeSec ((d @ [x]) ! ((length (d @ [x]) - 1 - 1) div 2)) \<le> ev_timeSec ((d @ [x]) ! j)"
  proof (intro allI impI)
    fix j assume a: "j < length (d @ [x])"
      "0 < j \<and> (j - 1) div 2 = length (d @ [x]) - 1 \<and> 0 < length (d @ [x]) - 1"
    then have False by simp arith
    then show "ev_timeSec ((d @ [x]) ! ((length (d @ [x]) - 1 - 1) div 2)) \<le> ev_timeSec ((d @ [x]) ! j)" ..
  qed
qed

lemma bubbleDown_sc:
  "bubbleDown d i =
     (if smallest_child d i = i then d
      else bubbleDown (d[smallest_child d i := d ! i, i := d ! smallest_child d i]) (smallest_child d i))"
  by (subst bubbleDown.simps) (simp only: smallest_child_def Let_def)

lemma smallest_child_unfold:
  "smallest_child d i =
     (if 2 * i + 2 < length d
         \<and> ev_timeSec (d ! (2 * i + 2))
           < ev_timeSec (d ! (if 2 * i + 1 < length d \<and> ev_timeSec (d ! (2 * i + 1)) < ev_timeSec (d ! i)
                              then 2 * i + 1 else i))
      then 2 * i + 2
      else (if 2 * i + 1 < length d \<and> ev_timeSec (d ! (2 * i + 1)) < ev_timeSec (d ! i)
            then 2 * i + 1 else i))"
  by (simp only: smallest_child_def Let_def)

lemma smallest_child_cases:
  "smallest_child d i = i \<or> smallest_child d i = 2 * i + 1 \<or> smallest_child d i = 2 * i + 2"
  by (simp add: smallest_child_def Let_def)

lemma smallest_child_lt: "smallest_child d i \<noteq> i \<Longrightarrow> smallest_child d i < length d"
  by (auto simp: smallest_child_def Let_def split: if_splits)

lemma smallest_child_gt: "smallest_child d i \<noteq> i \<Longrightarrow> i < smallest_child d i"
  using smallest_child_cases[of d i] by auto

lemma smallest_child_min:
  "j < length d \<Longrightarrow> j = 2 * i + 1 \<or> j = 2 * i + 2 \<Longrightarrow>
     ev_timeSec (d ! smallest_child d i) \<le> ev_timeSec (d ! j)"
  by (auto simp: smallest_child_def Let_def)

lemma smallest_child_le_self: "ev_timeSec (d ! smallest_child d i) \<le> ev_timeSec (d ! i)"
  by (auto simp: smallest_child_def Let_def)

lemma parent_child:
  "0 < (j::nat) \<Longrightarrow> (j - 1) div 2 = (i::nat) \<longleftrightarrow> j = 2 * i + 1 \<or> j = 2 * i + 2"
  by arith

lemma bubbleDown_length [simp]: "length (bubbleDown d i) = length d"
proof (induction d i rule: bubbleDown.induct)
  case (1 d i)
  show ?case
  proof (cases "smallest_child d i = i")
    case True
    then show ?thesis by (subst bubbleDown_sc) simp
  next
    case False
    have "length (bubbleDown (d[smallest_child d i := d ! i, i := d ! smallest_child d i]) (smallest_child d i))
        = length (d[smallest_child d i := d ! i, i := d ! smallest_child d i])"
      using False by (intro "1.IH"[OF refl refl refl refl]) (auto simp: smallest_child_def Let_def)
    then show ?thesis using False by (subst bubbleDown_sc) simp
  qed
qed

lemma bubbleDown_mset: "i < length d \<Longrightarrow> mset (bubbleDown d i) = mset d"
proof (induction d i rule: bubbleDown.induct)
  case (1 d i)
  show ?case
  proof (cases "smallest_child d i = i")
    case True
    then show ?thesis by (subst bubbleDown_sc) simp
  next
    case False
    let ?s = "smallest_child d i"
    have sl: "?s < length d" using False by (rule smallest_child_lt)
    have "mset (bubbleDown (d[?s := d ! i, i := d ! ?s]) ?s) = mset (d[?s := d ! i, i := d ! ?s])"
      using False sl by (intro "1.IH"[OF refl refl refl refl]) (auto simp: smallest_child_def Let_def)
    also have "\<dots> = mset d" using sl "1.prems" by (simp add: mset_swap)
    finally show ?thesis using False by (subst bubbleDown_sc) simp
  qed
qed

lemma bubbleDown_heap:
  assumes "\<forall>j<length d. 0 < j \<and> (j - 1) div 2 \<noteq> i
             \<longrightarrow> ev_timeSec (d ! ((j - 1) div 2)) \<le> ev_timeSec (d ! j)"
    and "\<forall>j<length d. 0 < j \<and> (j - 1) div 2 = i \<and> 0 < i
           \<longrightarrow> ev_timeSec (d ! ((i - 1) div 2)) \<le> ev_timeSec (d ! j)"
  shows "heap_ok (bubbleDown d i)"
  using assms
proof (induction d i rule: bubbleDown.induct)
  case (1 d i)
  let ?s = "smallest_child d i"
  show ?case
  proof (cases "?s = i")
    case True
    then have eq: "bubbleDown d i = d" by (subst bubbleDown_sc) simp
    have "heap_ok d" unfolding heap_ok_def
    proof (intro allI impI)
      fix j assume j: "j < length d" "0 < j"
      show "ev_timeSec (d ! ((j - 1) div 2)) \<le> ev_timeSec (d ! j)"
      proof (cases "(j - 1) div 2 = i")
        case False
        then show ?thesis using "1.prems"(1) j by simp
      next
        case pi: True
        then have "j = 2 * i + 1 \<or> j = 2 * i + 2" using j(2) parent_child by simp
        then have "ev_timeSec (d ! ?s) \<le> ev_timeSec (d ! j)" using smallest_child_min j(1) by blast
        then show ?thesis using True pi by simp
      qed
    qed
    then show ?thesis using eq by simp
  next
    case False
    let ?d = "d[?s := d ! i, i := d ! ?s]"
    have sl: "?s < length d" using False by (rule smallest_child_lt)
    have sg: "i < ?s" using False by (rule smallest_child_gt)
    have il: "i < length d" using sl sg by simp
    have sp: "(?s - 1) div 2 = i" using smallest_child_cases[of d i] False by auto
    have s0: "0 < ?s" using sg by simp
    have eq: "bubbleDown d i = bubbleDown ?d ?s" using False by (subst bubbleDown_sc) simp
    have di: "?d ! i = d ! ?s" using il by simp
    have ds: "?d ! ?s = d ! i" using sl sg by simp
    have A: "\<forall>j<length ?d. 0 < j \<and> (j - 1) div 2 \<noteq> ?s
        \<longrightarrow> ev_timeSec (?d ! ((j - 1) div 2)) \<le> ev_timeSec (?d ! j)"
    proof (intro allI impI)
      fix j assume j: "j < length ?d" and h: "0 < j \<and> (j - 1) div 2 \<noteq> ?s"
      have jl: "j < length d" using j by simp
      have j0: "0 < j" using h by simp
      show "ev_timeSec (?d ! ((j - 1) div 2)) \<le> ev_timeSec (?d ! j)"
      proof (cases "j = ?s")
        case True
        then show ?thesis using sp di ds smallest_child_le_self[of d i] by simp
      next
        case js: False
        show ?thesis
        proof (cases "(j - 1) div 2 = i")
          case True
          then have c: "j = 2 * i + 1 \<or> j = 2 * i + 2" using j0 parent_child by simp
          then have ji: "j \<noteq> i" by auto
          have "?d ! j = d ! j" using js ji by simp
          moreover have "ev_timeSec (d ! ?s) \<le> ev_timeSec (d ! j)"
            using smallest_child_min jl c by blast
          ultimately show ?thesis using True di by simp
        next
          case npi: False
          have pns: "(j - 1) div 2 \<noteq> ?s" using h by simp
          have pe: "?d ! ((j - 1) div 2) = d ! ((j - 1) div 2)" using npi pns by simp
          show ?thesis
          proof (cases "j = i")
            case True
            then have i0: "0 < i" using j0 by simp
            have "ev_timeSec (d ! ((i - 1) div 2)) \<le> ev_timeSec (d ! ?s)"
              using "1.prems"(2) sl s0 sp i0 by blast
            then show ?thesis using True pe di by simp
          next
            case False
            then have "?d ! j = d ! j" using js by simp
            then show ?thesis using pe "1.prems"(1) jl j0 npi by simp
          qed
        qed
      qed
    qed
    have B: "\<forall>j<length ?d. 0 < j \<and> (j - 1) div 2 = ?s \<and> 0 < ?s
        \<longrightarrow> ev_timeSec (?d ! ((?s - 1) div 2)) \<le> ev_timeSec (?d ! j)"
    proof (intro allI impI)
      fix j assume j: "j < length ?d" and h: "0 < j \<and> (j - 1) div 2 = ?s \<and> 0 < ?s"
      have jl: "j < length d" using j by simp
      have "?s < j" using h by arith
      then have "j \<noteq> ?s" "j \<noteq> i" using sg by auto
      then have "?d ! j = d ! j" by simp
      moreover have "ev_timeSec (d ! ?s) \<le> ev_timeSec (d ! j)"
        using "1.prems"(1) jl h sg by (metis less_irrefl)
      ultimately show "ev_timeSec (?d ! ((?s - 1) div 2)) \<le> ev_timeSec (?d ! j)"
        using sp di by simp
    qed
    have "heap_ok (bubbleDown ?d ?s)"
      using "1.IH"[OF refl refl refl refl smallest_child_unfold False A B] .
    then show ?thesis using eq by simp
  qed
qed

lemma pop_None [simp]: "pop d = None \<longleftrightarrow> d = []"
  by (auto simp: pop_def Let_def)

lemma pop_mset:
  assumes "pop d = Some (ev0, d')"
  shows "mset d = add_mset ev0 (mset d')" and "ev0 = d ! 0" and "length d = Suc (length d')"
proof -
  have ne: "d \<noteq> []" using assms by (auto simp: pop_def)
  have ev0: "ev0 = d ! 0" using assms ne by (auto simp: pop_def Let_def split: if_splits)
  show "ev0 = d ! 0" by fact
  have d: "d = butlast d @ [last d]" using ne by simp
  show "mset d = add_mset ev0 (mset d')"
  proof (cases "butlast d = []")
    case True
    then have "d' = []" using assms ne by (auto simp: pop_def Let_def)
    moreover have "d = [ev0]" using d True ev0 by (metis append_Nil nth_Cons_0)
    ultimately show ?thesis by simp
  next
    case False
    then have d': "d' = bubbleDown ((butlast d)[0 := last d]) 0"
      using assms ne by (auto simp: pop_def Let_def)
    have bl: "0 < length (butlast d)" using False by (metis length_greater_0_conv)
    have b0: "butlast d ! 0 = ev0" using nth_butlast[OF bl] ev0 by simp
    have bl': "0 < length ((butlast d)[0 := last d])" using bl by simp
    have "mset d' = mset ((butlast d)[0 := last d])"
      unfolding d' using bl' by (rule bubbleDown_mset)
    also have "\<dots> = add_mset (last d) (mset (butlast d) - {#butlast d ! 0#})"
      using bl by (rule mset_update)
    finally have m: "mset d' = add_mset (last d) (mset (butlast d) - {#ev0#})" using b0 by simp
    have tin: "ev0 \<in># mset (butlast d)" using b0 False by (metis length_greater_0_conv nth_mem set_mset_mset)
    have "mset d = add_mset (last d) (mset (butlast d))" using d by (metis mset.simps(2) mset_append add_mset_add_single union_mset_add_mset_right add.right_neutral mset.simps(1))
    then show ?thesis using m tin by simp
  qed
  then have "size (mset d) = Suc (size (mset d'))" by simp
  then show "length d = Suc (length d')" by simp
qed

lemma heap_root_min:
  assumes "heap_ok d" "j < length d"
  shows "ev_timeSec (d ! 0) \<le> ev_timeSec (d ! j)"
  using assms(2)
proof (induction j rule: less_induct)
  case (less j)
  show ?case
  proof (cases "j = 0")
    case True
    then show ?thesis by simp
  next
    case False
    then have p: "(j - 1) div 2 < j" by arith
    have "ev_timeSec (d ! 0) \<le> ev_timeSec (d ! ((j - 1) div 2))"
      using less.IH[OF p] p less.prems by simp
    moreover have "ev_timeSec (d ! ((j - 1) div 2)) \<le> ev_timeSec (d ! j)"
      using assms(1) less.prems False by (simp add: heap_ok_def)
    ultimately show ?thesis by simp
  qed
qed

lemma pop_heap:
  assumes "heap_ok d" "pop d = Some (ev0, d')"
  shows "heap_ok d'" and "\<forall>e\<in>set d'. ev_timeSec ev0 \<le> ev_timeSec e"
proof -
  have ne: "d \<noteq> []" using assms(2) by (auto simp: pop_def)
  have ev0: "ev0 = d ! 0" using pop_mset(2)[OF assms(2)] .
  have "\<forall>e\<in>set d. ev_timeSec ev0 \<le> ev_timeSec e"
    using heap_root_min[OF assms(1)] ev0 by (auto simp: in_set_conv_nth)
  moreover have "set d' \<subseteq> set d"
  proof -
    have "set_mset (mset d) = insert ev0 (set_mset (mset d'))"
      using pop_mset(1)[OF assms(2)] by simp
    then show ?thesis by auto
  qed
  ultimately show "\<forall>e\<in>set d'. ev_timeSec ev0 \<le> ev_timeSec e" by blast
  show "heap_ok d'"
  proof (cases "butlast d = []")
    case True
    then have "d' = []" using assms(2) ne by (auto simp: pop_def Let_def)
    then show ?thesis by (simp add: heap_ok_def)
  next
    case False
    let ?b = "(butlast d)[0 := last d]"
    have d': "d' = bubbleDown ?b 0" using assms(2) ne False by (auto simp: pop_def Let_def)
    have A: "\<forall>j<length ?b. 0 < j \<and> (j - 1) div 2 \<noteq> 0
        \<longrightarrow> ev_timeSec (?b ! ((j - 1) div 2)) \<le> ev_timeSec (?b ! j)"
    proof (intro allI impI)
      fix j assume j: "j < length ?b" and h: "0 < j \<and> (j - 1) div 2 \<noteq> 0"
      have jl: "j < length d - 1" using j by simp
      have pj: "(j - 1) div 2 < j" using h by arith
      have "?b ! j = d ! j" using h jl by (simp add: nth_butlast)
      moreover have "?b ! ((j - 1) div 2) = d ! ((j - 1) div 2)" using h jl pj by (simp add: nth_butlast)
      moreover have "ev_timeSec (d ! ((j - 1) div 2)) \<le> ev_timeSec (d ! j)"
        using assms(1) jl h by (simp add: heap_ok_def)
      ultimately show "ev_timeSec (?b ! ((j - 1) div 2)) \<le> ev_timeSec (?b ! j)" by simp
    qed
    have B: "\<forall>j<length ?b. 0 < j \<and> (j - 1) div 2 = 0 \<and> 0 < (0::nat)
        \<longrightarrow> ev_timeSec (?b ! ((0 - 1) div 2)) \<le> ev_timeSec (?b ! j)" by simp
    show ?thesis unfolding d' using bubbleDown_heap[OF A B] .
  qed
qed

section \<open>What the samplers return\<close>

lemma later_refl [simp]: "later g g"
  unfolding later_def by (rule exI[of _ 0]) simp

lemma later_trans: "later g g1 \<Longrightarrow> later g1 g2 \<Longrightarrow> later g g2"
  unfolding later_def
proof (elim exE)
  fix k l assume "g1 = (\<lambda>n. g (n + k))" "g2 = (\<lambda>n. g1 (n + l))"
  then have "g2 = (\<lambda>n. g (n + (l + k)))" by (simp add: add.assoc)
  then show "\<exists>k. g2 = (\<lambda>n. g (n + k))" by blast
qed

lemma later_ok: "rng_ok g \<Longrightarrow> later g g' \<Longrightarrow> rng_ok g'"
  by (auto simp: rng_ok_def later_def)

lemma draw_later: "draw g = (r, g') \<Longrightarrow> later g g' \<and> r = g 0"
  unfolding later_def draw_def by (auto intro: exI[of _ 1])

lemma draw_ok: "rng_ok g \<Longrightarrow> draw g = (r, g') \<Longrightarrow> 0 \<le> r \<and> r < 1"
  by (auto simp: draw_def rng_ok_def)

lemma unit_fraction:
  "0 \<le> real (unat (w :: 32 word)) / 4294967296 \<and> real (unat w) / 4294967296 < 1"
proof -
  have "unat w < 2 ^ LENGTH(32)" by (rule unsigned_less)
  then have "unat w < 4294967296" by simp
  then have "real (unat w) < real 4294967296" by (simp only: of_nat_less_iff)
  moreover have "0 \<le> real (unat w)" by (rule of_nat_0_le_iff)
  ultimately show ?thesis supply of_nat_unat [simp del] by simp
qed

lemma mulberry32_ok: "rng_ok (mulberry32 s)"
  unfolding rng_ok_def mulberry32_def mulberry32_out_def Let_def
  by (intro allI unit_fraction)

text \<open>The counter is exact for the first four million draws.\<close>

lemma mulberry32_counter_exact:
  "s + n * 1831565813 < 2 ^ 53 \<Longrightarrow>
     mulberry32_counter (real s) n = real (s + n * 1831565813)"
proof (induction n)
  case 0
  then show ?case by simp
next
  case (Suc n)
  have le: "s + n * 1831565813 \<le> s + Suc n * 1831565813" by simp
  then have "s + n * 1831565813 < 2 ^ 53" using Suc.prems by (rule le_less_trans)
  then have ih: "mulberry32_counter (real s) n = real (s + n * 1831565813)" by (rule Suc.IH)
  have "int (s + Suc n * 1831565813) < 2 ^ 53"
    using Suc.prems by (metis of_nat_less_numeral_power_cancel_iff)
  then have "to_double (of_int (int (s + Suc n * 1831565813))) = of_int (int (s + Suc n * 1831565813))"
    by (intro to_double_int) simp_all
  moreover have "real (s + n * 1831565813) + 1831565813 = of_int (int (s + Suc n * 1831565813))"
    by simp
  ultimately show ?case by (simp only: mulberry32_counter.simps ih of_int_of_nat_eq)
qed

lemma mulberry32_early:
  assumes "n < 4000000"
  shows "mulberry32 sd n = mulberry32_out (sd + (of_nat n + 1) * 0x6d2b79f5)"
proof -
  have "unat sd < 2 ^ LENGTH(32)" by (rule unsigned_less)
  then have "unat sd < 4294967296" by simp
  then have "unat sd + Suc n * 1831565813 < 2 ^ 53" using assms by simp
  then have c: "mulberry32_counter (real (unat sd)) (Suc n) = real (unat sd + Suc n * 1831565813)"
    by (rule mulberry32_counter_exact)
  have "\<lfloor>real (unat sd + Suc n * 1831565813)\<rfloor> = int (unat sd + Suc n * 1831565813)"
    by (rule floor_of_nat)
  moreover have "(word_of_int (int (unat sd + Suc n * 1831565813)) :: 32 word)
                  = sd + (of_nat n + 1) * 0x6d2b79f5"
    by simp
  ultimately show ?thesis unfolding mulberry32_def c by (simp only:)
qed

lemma normalSample_later: "normalSample g = (x, g') \<Longrightarrow> later g g'"
  by (auto simp: normalSample_def split: prod.splits dest!: draw_later intro: later_trans)

lemma sampleLognormal_later: "sampleLognormal g m p = (x, g') \<Longrightarrow> later g g' \<and> 0 \<le> x"
  by (auto simp: sampleLognormal_def Let_def split: if_splits prod.splits dest: normalSample_later)

lemma sampleGamma_loop_later_aux:
  assumes "sampleGamma_loop d c sc g = Some r"
  shows "later g (snd r)"
proof (rule sampleGamma_loop.raw_induct[where P = "\<lambda>d c sc g r. later g (snd r)", OF _ assms])
  fix f :: "real \<Rightarrow> real \<Rightarrow> real \<Rightarrow> rng \<Rightarrow> (real \<times> rng) option" and d c sc g r
  assume IH: "\<And>d c sc g r. f d c sc g = Some r \<Longrightarrow> later g (snd r)"
  assume step: "(case normalSample g of (x, g1) \<Rightarrow>
        let v = 1 + c * x in
        if v \<le> 0 then f d c sc g1
        else let v3 = v * v * v in
          case draw g1 of (u, g2) \<Rightarrow>
            if u < 1 - 0.0331 * x ^ 4 then Some (sc * d * v3, g2)
            else if u = 0 \<or> (0 < u \<and> ln u < 0.5 * x * x + d * (1 - v3 + ln v3))
              then Some (sc * d * v3, g2)
            else f d c sc g2) = Some r"
  obtain x g1 where ns: "normalSample g = (x, g1)" by (cases "normalSample g")
  obtain u g2 where dr: "draw g1 = (u, g2)" by (cases "draw g1")
  have l1: "later g g1" using ns by (rule normalSample_later)
  have l2: "later g1 g2" using dr draw_later by blast
  have "f d c sc g1 = Some r \<or> snd r = g2 \<or> f d c sc g2 = Some r"
    using step ns dr by (auto simp: Let_def split: if_splits)
  then show "later g (snd r)"
    using IH l1 l2 later_trans by blast
qed

lemma sampleGamma_later: "sampleGamma g sh sc = Some (y, g') \<Longrightarrow> later g g'"
proof -
  assume a: "sampleGamma g sh sc = Some (y, g')"
  have m: "later h h'" if "sampleGamma_main h s c = Some (z, h')" for h s c z h'
    using that sampleGamma_loop_later_aux by (fastforce simp: sampleGamma_main_def Let_def)
  show ?thesis
  proof (cases "sh \<le> 0")
    case True
    then show ?thesis using a by (simp add: sampleGamma_def)
  next
    case False
    show ?thesis
    proof (cases "sh < 1")
      case True
      obtain r g1 where dr: "draw g = (r, g1)" by (cases "draw g")
      then obtain y0 where "sampleGamma_main g1 (sh + 1) sc = Some (y0, g')"
        using a False True by (auto simp: sampleGamma_def Let_def split: option.splits)
      then have "later g1 g'" by (rule m)
      then show ?thesis using dr draw_later later_trans by blast
    next
      case nl: False
      then show ?thesis using a False m by (simp add: sampleGamma_def)
    qed
  qed
qed

lemma gammaParams_loop_bounds:
  "gammaParams_loop k m p low high = (l, h) \<Longrightarrow> 0 < low \<Longrightarrow> low \<le> high \<Longrightarrow> 0 < l \<and> l \<le> h"
proof (induction k arbitrary: low high)
  case 0
  then show ?case by simp
next
  case (Suc k)
  let ?mid = "0.5 * (low + high)"
  have mid: "0 < ?mid" "low \<le> ?mid" "?mid \<le> high" using Suc.prems by simp_all
  from Suc.prems(1) have "gammaParams_loop k m p low ?mid = (l, h) \<or> gammaParams_loop k m p ?mid high = (l, h)"
    by (simp add: Let_def split: if_splits)
  then show ?case using Suc.IH mid Suc.prems(2) by blast
qed

lemma gammaParams_pos: "0 < shape (gammaParamsFromMeanP95 m p) \<and> 0 < scale (gammaParamsFromMeanP95 m p)"
proof (cases "m \<le> 0 \<or> p \<le> 0")
  case True
  then show ?thesis by (simp add: gammaParamsFromMeanP95_def)
next
  case False
  obtain l h where lh: "gammaParams_loop 60 m p 0.2 20 = (l, h)" by (cases "gammaParams_loop 60 m p 0.2 20")
  have "0 < l \<and> l \<le> h" using gammaParams_loop_bounds[OF lh] by simp
  then have "0 < 0.5 * (l + h)" by simp
  then show ?thesis using False lh by (simp add: gammaParamsFromMeanP95_def Let_def)
qed

lemma sampleDistribution_later:
  "sampleDistribution g spec = Some (y, g') \<Longrightarrow> later g g' \<and> 0 \<le> y"
proof (cases "dtype spec = gamma")
  case True
  assume a: "sampleDistribution g spec = Some (y, g')"
  then have s: "sampleGamma g (shape (gammaParamsFromMeanP95 (mean spec) (p95 spec)))
      (scale (gammaParamsFromMeanP95 (mean spec) (p95 spec))) = Some (y, g')"
    using True by (simp add: sampleDistribution_def Let_def)
  have "0 < y" using sampleGamma_pos[OF s] gammaParams_pos by blast
  then show ?thesis using sampleGamma_later[OF s] by simp
next
  case False
  assume a: "sampleDistribution g spec = Some (y, g')"
  then show ?thesis using False sampleLognormal_later by (auto simp: sampleDistribution_def)
qed

lemma sampleLedgerInterval_later:
  "sampleLedgerInterval g m j = (i, g') \<Longrightarrow>
     later g g' \<and> ((0 < j \<or> 0 \<le> m) \<longrightarrow> 0 \<le> i)"
  by (auto simp: sampleLedgerInterval_def split: if_splits prod.splits dest: draw_later)

lemma settle_loop_time:
  "settle_loop spec p g t r k = (res, k', g') \<Longrightarrow>
     later g g' \<and> (rng_ok g \<and> stellar_nonneg spec \<longrightarrow> t \<le> sr_timeSec res)"
proof (induction spec p g t r k rule: settle_loop.induct)
  case (1 spec p g t r k)
  obtain interval g1 where
    a: "sampleLedgerInterval g (ledgerCloseMean spec) (ledgerJitter spec) = (interval, g1)"
    by (cases "sampleLedgerInterval g (ledgerCloseMean spec) (ledgerJitter spec)")
  obtain u g2 where b: "draw g1 = (u, g2)" by (cases "draw g1")
  obtain u' g3 where c: "draw g2 = (u', g3)" by (cases "draw g2")
  have l1: "later g g1" using sampleLedgerInterval_later[OF a] by simp
  have l2: "later g1 g2" using draw_later[OF b] by simp
  have l3: "later g2 g3" using draw_later[OF c] by simp
  have l: "later g g3" using l1 l2 l3 later_trans by blast
  have times: "0 \<le> u * interval \<and> 0 \<le> interval - u * interval
      \<and> 0 \<le> backoffBaseMs spec * backoffMultiplier spec ^ n / 1000"
    if ok: "rng_ok g" "stellar_nonneg spec" for n
  proof -
    have i: "0 \<le> interval" using sampleLedgerInterval_later[OF a] ok(2)
      by (auto simp: stellar_nonneg_def)
    have u: "0 \<le> u \<and> u < 1" using draw_ok[OF later_ok[OF ok(1) l1] b] .
    have "u * interval \<le> 1 * interval" using u i by (intro mult_right_mono) auto
    moreover have "0 \<le> backoffBaseMs spec * backoffMultiplier spec ^ n"
      using ok(2) by (simp add: stellar_nonneg_def)
    ultimately show ?thesis using u i by simp
  qed
  show ?case
  proof (cases "u' < p")
    case True
    then have "res = \<lparr> confirmed = True, sr_timeSec = t + u * interval, sr_retries = r, gaveUp = False \<rparr>
        \<and> g' = g3"
      using "1.prems" a b c by (subst (asm) settle_loop.simps) (auto simp: Let_def)
    then show ?thesis using l times[of 0] by auto
  next
    case np: False
    show ?thesis
    proof (cases "real r \<ge> maxRetries spec")
      case True
      then have "res = \<lparr> confirmed = False, sr_timeSec = t + u * interval + (interval - u * interval),
            sr_retries = r, gaveUp = True \<rparr> \<and> g' = g3"
        using "1.prems" a b c np by (subst (asm) settle_loop.simps) (auto simp: Let_def)
      then show ?thesis using l times[of 0] by auto
    next
      case nr: False
      let ?t3 = "t + u * interval + (interval - u * interval)
                 + backoffBaseMs spec * backoffMultiplier spec ^ (r + 1 - 1) / 1000"
      show ?thesis
      proof (cases "?t3 > maxSettleWindowSec spec")
        case True
        then have "res = \<lparr> confirmed = False, sr_timeSec = ?t3, sr_retries = r + 1, gaveUp = True \<rparr>
            \<and> g' = g3"
          using "1.prems" a b c np nr by (subst (asm) settle_loop.simps) (auto simp: Let_def)
        then show ?thesis using l times[of "r + 1 - 1"] by auto
      next
        case False
        have rec: "settle_loop spec p g3 ?t3 (r + 1) (Suc k) = (res, k', g')"
          using "1.prems" a b c np nr False
          by (subst (asm) settle_loop.simps) (simp add: Let_def)
        have IH: "later g3 g' \<and> (rng_ok g3 \<and> stellar_nonneg spec \<longrightarrow> ?t3 \<le> sr_timeSec res)"
          using "1.IH"[OF a[symmetric] b[symmetric] c[symmetric] refl refl np refl nr
              refl refl refl False rec] .
        have "t \<le> ?t3" if "rng_ok g" "stellar_nonneg spec"
          using times[OF that, of "r + 1 - 1"] by linarith
        then show ?thesis using IH l later_trans later_ok by (meson order_trans)
      qed
    qed
  qed
qed

lemma simulateSettlement_time:
  assumes "simulateSettlement g spec start og = Some (res, g')"
  shows "later g g'"
    and "rng_ok g \<Longrightarrow> stellar_nonneg spec
         \<Longrightarrow> (outage_enabled og \<longrightarrow> 0 \<le> submissionDelayMultiplier og) \<Longrightarrow> 0 \<le> sr_timeSec res"
proof -
  from assms obtain k where "simulateSettlement_run g spec start og = Some (res, k, g')"
    by (auto simp: simulateSettlement_run_Some)
  then obtain ms g1 p where d: "sampleDistribution g (submissionDelay spec) = Some (ms, g1)"
    and l: "settle_loop spec p g1
         (ms / 1000 * (if outage_enabled og \<and> startHour og * 3600 \<le> start
              \<and> start \<le> startHour og * 3600 + durationHours og * 3600
            then submissionDelayMultiplier og else 1)) 0 0 = (res, k, g')"
    by (auto simp: simulateSettlement_run_def Let_def split: option.splits)
  have l1: "later g g1" and ms: "0 \<le> ms" using sampleDistribution_later[OF d] by auto
  show "later g g'" using l1 settle_loop_time[OF l] later_trans by blast
  assume ok: "rng_ok g" "stellar_nonneg spec"
    "outage_enabled og \<longrightarrow> 0 \<le> submissionDelayMultiplier og"
  have "0 \<le> ms / 1000 * (if outage_enabled og \<and> startHour og * 3600 \<le> start
              \<and> start \<le> startHour og * 3600 + durationHours og * 3600
            then submissionDelayMultiplier og else 1)"
    using ms ok(3) by auto
  moreover have "rng_ok g1" using later_ok[OF ok(1) l1] .
  ultimately show "0 \<le> sr_timeSec res" using settle_loop_time[OF l] ok(2) by auto
qed

lemma sampleNetworkLegs_later:
  assumes "sampleNetworkLegs g spec = Some (legs, g')"
  shows "later g g' \<and> 0 \<le> t1 legs \<and> 0 \<le> t2 legs \<and> 0 \<le> t3 legs \<and> 0 \<le> t4 legs"
proof (cases "nl_mode spec = combined_mode")
  case True
  then show ?thesis using assms
    by (auto simp: sampleNetworkLegs_def Let_def split: option.splits dest: sampleDistribution_later)
next
  case False
  from assms False obtain a g1 b g2 c g3 d where
    s: "sampleDistribution g (terminalToNetwork spec) = Some (a, g1)"
       "sampleDistribution g1 (networkToIssuer spec) = Some (b, g2)"
       "sampleDistribution g2 (issuerToNetwork spec) = Some (c, g3)"
       "sampleDistribution g3 (networkToTerminal spec) = Some (d, g')"
    and legs: "legs = \<lparr> t1 = a / 1000, t2 = b / 1000, t3 = c / 1000, t4 = d / 1000 \<rparr>"
    by (auto simp: sampleNetworkLegs_def split: option.splits)
  have "later g g'"
    using s sampleDistribution_later later_trans by meson
  then show ?thesis using s legs by (auto dest: sampleDistribution_later)
qed

lemma sampleInterarrival_later: "sampleInterarrival g l b p m = (x, g') \<Longrightarrow> later g g'"
  by (auto simp: sampleInterarrival_def split: if_splits prod.splits dest!: draw_later
      intro: later_trans)

lemma set_push [simp]: "set (push d x) = insert x (set d)"
  by (metis push_mset set_mset_add_mset_insert set_mset_mset)

section \<open>What the handlers change\<close>

lemma applySpendLimits_frame [simp]:
  "exposureEvents (applySpendLimits spec st u a t) = exposureEvents st"
  "popped (applySpendLimits spec st u a t) = popped st"
  "events (applySpendLimits spec st u a t) = events st"
  "holdTotals (applySpendLimits spec st u a t) = holdTotals st"
  "holdByTxn (applySpendLimits spec st u a t) = holdByTxn st"
  "holdCounts (applySpendLimits spec st u a t) = holdCounts st"
  "balances (applySpendLimits spec st u a t) = balances st"
  "rng_state (applySpendLimits spec st u a t) = rng_state st"
  "approvals (applySpendLimits spec st u a t) = approvals st"
  "declines (applySpendLimits spec st u a t) = declines st"
  "timeouts (applySpendLimits spec st u a t) = timeouts st"
  "skippedUnavailable (applySpendLimits spec st u a t) = skippedUnavailable st"
  "insufficientFundsSkipped (applySpendLimits spec st u a t) = insufficientFundsSkipped st"
  "autoDeclined (applySpendLimits spec st u a t) = autoDeclined st"
  "authContext (applySpendLimits spec st u a t) = authContext st"
  by (simp_all add: applySpendLimits_def)

lemma recordApproval_frame [simp]:
  "exposureEvents (recordApproval spec st ev a f t) = exposureEvents st"
  "popped (recordApproval spec st ev a f t) = popped st"
  "events (recordApproval spec st ev a f t) = events st"
  "holdTotals (recordApproval spec st ev a f t) = holdTotals st"
  "holdByTxn (recordApproval spec st ev a f t) = holdByTxn st"
  "holdCounts (recordApproval spec st ev a f t) = holdCounts st"
  "balances (recordApproval spec st ev a f t) = balances st"
  "rng_state (recordApproval spec st ev a f t) = rng_state st"
  "approvals (recordApproval spec st ev a f t) = approvals st @ [ev_txnId ev]"
  "declines (recordApproval spec st ev a f t) = declines st"
  "timeouts (recordApproval spec st ev a f t) = timeouts st"
  "skippedUnavailable (recordApproval spec st ev a f t) = skippedUnavailable st"
  "insufficientFundsSkipped (recordApproval spec st ev a f t) = insufficientFundsSkipped st"
  "autoDeclined (recordApproval spec st ev a f t) = autoDeclined st"
  "authContext (recordApproval spec st ev a f t) = authContext st"
  by (simp_all add: recordApproval_def Let_def)

lemma placeHold_frame [simp]:
  "exposureEvents (placeHold spec st ev a f t) = exposureEvents st"
  "popped (placeHold spec st ev a f t) = popped st"
  "balances (placeHold spec st ev a f t) = balances st"
  "rng_state (placeHold spec st ev a f t) = rng_state st"
  "approvals (placeHold spec st ev a f t) = approvals st"
  "declines (placeHold spec st ev a f t) = declines st"
  "timeouts (placeHold spec st ev a f t) = timeouts st"
  "skippedUnavailable (placeHold spec st ev a f t) = skippedUnavailable st"
  "insufficientFundsSkipped (placeHold spec st ev a f t) = insufficientFundsSkipped st"
  "autoDeclined (placeHold spec st ev a f t) = autoDeclined st"
  "authContext (placeHold spec st ev a f t) = authContext st"
  by (simp_all add: placeHold_def Let_def)

lemma placeHold_events:
  "events (placeHold spec st ev a f t) =
     (if holds_enabled (holds spec)
      then push (events st) \<lparr> ev_timeSec = t + holdDurationSec (holds spec),
                ev_type = hold_expiry, ev_userId = ev_userId ev, ev_txnId = ev_txnId ev,
                ev_amount = a, relatedAmount = None, ev_settlement = None,
                isFraud = Some f \<rparr>
      else events st)"
  by (simp add: placeHold_def Let_def)

lemma incrementalAuth_frame [simp]:
  "exposureEvents (incrementalAuth spec st ev) = exposureEvents st"
  "popped (incrementalAuth spec st ev) = popped st"
  "events (incrementalAuth spec st ev) = events st"
  "holdByTxn (incrementalAuth spec st ev) = holdByTxn st"
  "balances (incrementalAuth spec st ev) = balances st"
  "rng_state (incrementalAuth spec st ev) = rng_state st"
  "approvals (incrementalAuth spec st ev) = approvals st"
  "declines (incrementalAuth spec st ev) = declines st"
  "timeouts (incrementalAuth spec st ev) = timeouts st"
  "skippedUnavailable (incrementalAuth spec st ev) = skippedUnavailable st"
  "insufficientFundsSkipped (incrementalAuth spec st ev) = insufficientFundsSkipped st"
  "autoDeclined (incrementalAuth spec st ev) = autoDeclined st"
  "authContext (incrementalAuth spec st ev) = authContext st"
  by (simp_all add: incrementalAuth_def Let_def)

lemma approvePurchase_order:
  assumes nd: "nonneg_delays spec" and ok: "rng_ok (rng_state st)"
    and a: "approvePurchase spec st ev amount fr doneAt authT = Some st'"
    and t: "ev_timeSec ev \<le> doneAt"
  shows "step_order ev st st'"
proof -
  have hd: "0 \<le> holdDurationSec (holds spec)" using nd by (simp add: nonneg_delays_def)
  show ?thesis
  proof (cases "preAuth_enabled (preAuth spec)")
    case True
    from a True obtain delayMs g1 multiplier g2 where
      s1: "sampleDistribution (rng_state st) (completionDelay (preAuth spec)) = Some (delayMs, g1)"
      and s2: "sampleDistribution g1 \<lparr> dtype = lognormal, mean = completionMultiplierMean (preAuth spec),
                     p95 = completionMultiplierP95 (preAuth spec) \<rparr> = Some (multiplier, g2)"
      by (auto simp: approvePurchase_def Let_def split: option.splits if_splits)
    have l: "later (rng_state st) g2" and d: "0 \<le> delayMs"
      using sampleDistribution_later[OF s1] sampleDistribution_later[OF s2] later_trans by blast+
    have g2: "rng_ok g2" using later_ok[OF ok l] .
    show ?thesis using a True s1 s2 g2 d hd t
      by (auto simp: approvePurchase_def Let_def step_order_def settled_nonneg_def placeHold_events
          intro!: push_heap split: if_splits)
  next
    case False
    from a False obtain stl g1 where
      s: "simulateSettlement (rng_state st) (stellar spec) doneAt (outage spec) = Some (stl, g1)"
      by (auto simp: approvePurchase_def Let_def split: option.splits if_splits)
    have g1: "rng_ok g1" using later_ok[OF ok simulateSettlement_time(1)[OF s]] .
    have st: "0 \<le> sr_timeSec stl"
      using simulateSettlement_time(2)[OF s ok] nd by (simp add: nonneg_delays_def)
    show ?thesis using a False s g1 st hd t
      by (auto simp: approvePurchase_def Let_def step_order_def settled_nonneg_def placeHold_events
          intro!: push_heap split: if_splits)
  qed
qed

lemma authorizePurchase_order:
  assumes nd: "nonneg_delays spec" and ok: "rng_ok (rng_state st)"
    and a: "authorizePurchase spec st ev amount fr = Some st'"
  shows "step_order ev st st'"
proof -
  from a obtain legs g1 processingMs g2 where
    s1: "sampleNetworkLegs (rng_state st) (networkLatency spec) = Some (legs, g1)"
    and s2: "sampleDistribution g1 (issuerProcessing spec) = Some (processingMs, g2)"
    by (auto simp: authorizePurchase_def Let_def split: option.splits)
  have l: "later (rng_state st) g2"
    using sampleNetworkLegs_later[OF s1] sampleDistribution_later[OF s2] later_trans by blast
  have g2: "rng_ok g2" using later_ok[OF ok l] .
  have nn: "0 \<le> t1 legs" "0 \<le> t2 legs" "0 \<le> processingMs"
    using sampleNetworkLegs_later[OF s1] sampleDistribution_later[OF s2] by auto
  let ?done = "ev_timeSec ev + t1 legs + t2 legs + processingMs / 1000"
  have dn: "ev_timeSec ev \<le> ?done" using nn by simp
  show ?thesis
  proof (cases "mode spec = wait_on_chain")
    case True
    from a True s1 s2 obtain stl g3 where
      s: "simulateSettlement g2 (stellar spec) ?done (outage spec) = Some (stl, g3)"
      by (auto simp: authorizePurchase_def Let_def split: option.splits)
    have g3: "rng_ok g3" using later_ok[OF g2 simulateSettlement_time(1)[OF s]] .
    have st: "0 \<le> sr_timeSec stl"
      using simulateSettlement_time(2)[OF s g2] nd by (simp add: nonneg_delays_def)
    show ?thesis using a True s1 s2 s g3 st dn
      by (auto simp: authorizePurchase_def Let_def step_order_def settled_nonneg_def
          intro!: push_heap)
  next
    case False
    let ?authT = "t1 legs + t2 legs + processingMs / 1000 + t3 legs + t4 legs"
    have "step_order ev (st\<lparr> rng_state := g2 \<rparr>) st'"
      if "approvePurchase spec (st\<lparr> rng_state := g2 \<rparr>) ev amount fr ?done ?authT = Some st'"
      using approvePurchase_order[OF nd _ that dn] g2 by simp
    then show ?thesis using a False s1 s2 g2
      by (auto simp: authorizePurchase_def Let_def step_order_def split: if_splits)
  qed
qed

lemma handlePurchase_order:
  assumes nd: "nonneg_delays spec" and ok: "rng_ok (rng_state st)"
    and a: "handlePurchase spec st ev = Some st'"
  shows "step_order ev st st'"
proof (cases "balances st ! ev_userId ev - holdTotals st ! ev_userId ev \<le> 0")
  case True
  then show ?thesis using a ok by (auto simp: handlePurchase_def Let_def step_order_def)
next
  case avail: False
  show ?thesis
  proof (cases "fraud_enabled (fraud spec) \<and> fst (draw (rng_state st)) < fraudAttemptRate (fraud spec)")
    case False
    obtain r g1 where dr: "draw (rng_state st) = (r, g1)" by (cases "draw (rng_state st)")
    define g where "g = (if fraud_enabled (fraud spec) then g1 else rng_state st)"
    have g: "rng_ok g" using ok later_ok draw_later[OF dr] by (auto simp: g_def)
    have "authorizePurchase spec (st\<lparr> rng_state := g \<rparr>) ev (ev_amount ev) False = Some st'"
      using a avail False dr by (auto simp: handlePurchase_def Let_def g_def split: if_splits)
    from authorizePurchase_order[OF nd _ this] g show ?thesis by (simp add: step_order_def)
  next
    case True
    obtain r g1 where dr: "draw (rng_state st) = (r, g1)" by (cases "draw (rng_state st)")
    from a avail True dr obtain multiplier g2 where
      s: "sampleDistribution g1 \<lparr> dtype = lognormal, mean = fraudAmountMultiplierMean (fraud spec),
                           p95 = fraudAmountMultiplierP95 (fraud spec) \<rparr> = Some (multiplier, g2)"
      by (auto simp: handlePurchase_def Let_def split: option.splits)
    obtain r' g3 where dr': "draw g2 = (r', g3)" by (cases "draw g2")
    have "later (rng_state st) g3"
      using draw_later[OF dr] sampleDistribution_later[OF s] draw_later[OF dr'] later_trans by blast
    then have g3: "rng_ok g3" using later_ok[OF ok] by simp
    show ?thesis
    proof (cases "r' < autoDeclineRate (fraud spec)")
      case True
      then show ?thesis using a avail \<open>fraud_enabled (fraud spec) \<and> _\<close> dr s dr' g3
        by (auto simp: handlePurchase_def Let_def step_order_def)
    next
      case False
      then have "authorizePurchase spec (st\<lparr> rng_state := g3, fraudAttempts := fraudAttempts st + 1 \<rparr>)
          ev (ev_amount ev * multiplier) True = Some st'"
        using a avail \<open>fraud_enabled (fraud spec) \<and> _\<close> dr s dr'
        by (auto simp: handlePurchase_def Let_def)
      from authorizePurchase_order[OF nd _ this] g3 show ?thesis by (simp add: step_order_def)
    qed
  qed
qed

lemma handleCompletion_order:
  assumes nd: "nonneg_delays spec" and ok: "rng_ok (rng_state st)"
    and a: "handleCompletion spec st ev = Some st'"
  shows "step_order ev st st'"
proof -
  from a obtain legs g1 processingMs g2 where
    s1: "sampleNetworkLegs (rng_state st) (networkLatency spec) = Some (legs, g1)"
    and s2: "sampleDistribution g1 (issuerProcessing spec) = Some (processingMs, g2)"
    by (auto simp: handleCompletion_def Let_def split: option.splits)
  have l: "later (rng_state st) g2"
    using sampleNetworkLegs_later[OF s1] sampleDistribution_later[OF s2] later_trans by blast
  have g2: "rng_ok g2" using later_ok[OF ok l] .
  have nn: "0 \<le> t1 legs" "0 \<le> t2 legs" "0 \<le> processingMs"
    using sampleNetworkLegs_later[OF s1] sampleDistribution_later[OF s2] by auto
  let ?done = "ev_timeSec ev + t1 legs + t2 legs + processingMs / 1000"
  have dn: "ev_timeSec ev \<le> ?done" using nn by simp
  from a s1 s2 obtain stl g3 where
    s: "simulateSettlement g2 (stellar spec) ?done (outage spec) = Some (stl, g3)"
    by (auto simp: handleCompletion_def Let_def split: option.splits)
  have g3: "rng_ok g3" using later_ok[OF g2 simulateSettlement_time(1)[OF s]] .
  have st: "0 \<le> sr_timeSec stl"
    using simulateSettlement_time(2)[OF s g2] nd by (simp add: nonneg_delays_def)
  show ?thesis using a s1 s2 s g3 st dn
    by (auto simp: handleCompletion_def Let_def step_order_def settled_nonneg_def
        intro!: push_heap)
qed

section \<open>The event loop\<close>

lemma handleHoldExpiry_frame [simp]:
  "exposureEvents (handleHoldExpiry st ev) = exposureEvents st"
  "popped (handleHoldExpiry st ev) = popped st"
  "events (handleHoldExpiry st ev) = events st"
  "balances (handleHoldExpiry st ev) = balances st"
  "rng_state (handleHoldExpiry st ev) = rng_state st"
  "approvals (handleHoldExpiry st ev) = approvals st"
  "declines (handleHoldExpiry st ev) = declines st"
  "timeouts (handleHoldExpiry st ev) = timeouts st"
  "skippedUnavailable (handleHoldExpiry st ev) = skippedUnavailable st"
  "insufficientFundsSkipped (handleHoldExpiry st ev) = insufficientFundsSkipped st"
  "autoDeclined (handleHoldExpiry st ev) = autoDeclined st"
  "authContext (handleHoldExpiry st ev) = authContext st"
  by (simp_all add: handleHoldExpiry_def Let_def split: option.splits)

lemma settleWaitOnChain_frame [simp]:
  "exposureEvents (settleWaitOnChain spec st ev stl) = exposureEvents st"
  "popped (settleWaitOnChain spec st ev stl) = popped st"
  "events (settleWaitOnChain spec st ev stl) = events st"
  "rng_state (settleWaitOnChain spec st ev stl) = rng_state st"
  "holdTotals (settleWaitOnChain spec st ev stl) = holdTotals st"
  "holdByTxn (settleWaitOnChain spec st ev stl) = holdByTxn st"
  "holdCounts (settleWaitOnChain spec st ev stl) = holdCounts st"
  "skippedUnavailable (settleWaitOnChain spec st ev stl) = skippedUnavailable st"
  "autoDeclined (settleWaitOnChain spec st ev stl) = autoDeclined st"
  "authContext (settleWaitOnChain spec st ev stl) = authContext st"
  by (simp_all add: settleWaitOnChain_def Let_def split: option.splits)

lemma settleOffchain_frame [simp]:
  "popped (settleOffchain spec st ev stl) = popped st"
  "events (settleOffchain spec st ev stl) = events st"
  "rng_state (settleOffchain spec st ev stl) = rng_state st"
  "approvals (settleOffchain spec st ev stl) = approvals st"
  "declines (settleOffchain spec st ev stl) = declines st"
  "timeouts (settleOffchain spec st ev stl) = timeouts st"
  "skippedUnavailable (settleOffchain spec st ev stl) = skippedUnavailable st"
  "insufficientFundsSkipped (settleOffchain spec st ev stl) = insufficientFundsSkipped st"
  "autoDeclined (settleOffchain spec st ev stl) = autoDeclined st"
  "authContext (settleOffchain spec st ev stl) = authContext st"
  by (simp_all add: settleOffchain_def Let_def split: option.splits)

lemma handleSettlement_frame [simp]:
  "popped (handleSettlement spec st ev) = popped st"
  "events (handleSettlement spec st ev) = events st"
  "rng_state (handleSettlement spec st ev) = rng_state st"
  "skippedUnavailable (handleSettlement spec st ev) = skippedUnavailable st"
  "autoDeclined (handleSettlement spec st ev) = autoDeclined st"
  "authContext (handleSettlement spec st ev) = authContext st"
  by (simp_all add: handleSettlement_def split: option.splits)

lemma processEvent_order:
  assumes "nonneg_delays spec" "rng_ok (rng_state st)" "processEvent spec st ev = Some st'"
  shows "step_order ev st st'"
proof (cases "ev_type ev")
  case purchase
  then show ?thesis using assms handlePurchase_order by (simp add: processEvent_def)
next
  case settlement
  then show ?thesis using assms by (auto simp: processEvent_def step_order_def)
next
  case hold_expiry
  then show ?thesis using assms by (auto simp: processEvent_def step_order_def)
next
  case completion
  then show ?thesis using assms handleCompletion_order by (simp add: processEvent_def)
qed

lemma popEvent_Some:
  assumes "popEvent st = Some (ev, st1)"
  shows "\<exists>rest. pop (events st) = Some (ev, rest)
           \<and> st1 = st\<lparr> events := rest, popped := popped st @ [ev] \<rparr>"
  using assms by (auto simp: popEvent_def split: option.splits)

lemma pop_Nil [simp]: "pop [] = None"
  by (simp add: pop_def)

lemma popEvent_None: "popEvent st = None \<longleftrightarrow> events st = []"
  by (auto simp: popEvent_def split: option.splits)

lemma order_inv_step:
  assumes nd: "nonneg_delays spec" and inv: "order_inv st"
    and p: "popEvent st = Some (ev, st1)" and h: "processEvent spec st1 ev = Some st2"
  shows "order_inv st2"
proof -
  from popEvent_Some[OF p] obtain rest where pr: "pop (events st) = Some (ev, rest)"
    and s1: "st1 = st\<lparr> events := rest, popped := popped st @ [ev] \<rparr>" by blast
  have pp: "pop (events st) = Some (ev, events st1)" using pr s1 by simp
  have st1: "popped st1 = popped st @ [ev]" "rng_state st1 = rng_state st"
    using s1 by simp_all
  have hk: "heap_ok (events st)" and ok: "rng_ok (rng_state st)"
    and srt: "sorted (map ev_timeSec (popped st))"
    and low: "\<forall>p\<in>set (popped st). \<forall>e\<in>set (events st). ev_timeSec p \<le> ev_timeSec e"
    and sn: "\<forall>e\<in>set (events st). settled_nonneg e"
    using inv by (auto simp: order_inv_def)
  have h1: "heap_ok (events st1)" and min1: "\<forall>e\<in>set (events st1). ev_timeSec ev \<le> ev_timeSec e"
    using pop_heap[OF hk pp] by auto
  have sub: "set (events st) = insert ev (set (events st1))"
  proof -
    have "set_mset (mset (events st)) = insert ev (set_mset (mset (events st1)))"
      using pop_mset(1)[OF pp] by simp
    then show ?thesis by simp
  qed
  have so: "step_order ev st1 st2" using processEvent_order[OF nd _ h] ok st1 by simp
  have a: "heap_ok (events st2)" and b: "rng_ok (rng_state st2)" and c: "popped st2 = popped st @ [ev]"
    and d: "\<forall>e\<in>set (events st2). e \<in> set (events st1)
            \<or> (ev_timeSec ev \<le> ev_timeSec e \<and> settled_nonneg e)"
    using so h1 st1 by (auto simp: step_order_def)
  have e1: "\<forall>e\<in>set (events st2). ev_timeSec ev \<le> ev_timeSec e" using d min1 by blast
  have e2: "\<forall>e\<in>set (events st2). settled_nonneg e" using d sn sub by blast
  have lowev: "\<forall>p\<in>set (popped st). ev_timeSec p \<le> ev_timeSec ev" using low sub by blast
  have s2: "sorted (map ev_timeSec (popped st2))"
    unfolding c using srt lowev by (simp add: sorted_append)
  have l2: "\<forall>p\<in>set (popped st2). \<forall>e\<in>set (events st2). ev_timeSec p \<le> ev_timeSec e"
    unfolding c using lowev e1 by (auto intro: order_trans)
  show ?thesis using a b s2 l2 e2 by (simp add: order_inv_def)
qed

lemma reaches_invariant:
  assumes "reaches spec st0 st" "P st0"
    and "\<And>s ev s1 s2. P s \<Longrightarrow> popEvent s = Some (ev, s1) \<Longrightarrow> processEvent spec s1 ev = Some s2 \<Longrightarrow> P s2"
  shows "P st"
  using assms by (induction rule: reaches.induct) auto

lemma reaches_front:
  assumes "popEvent st = Some (ev, st1)" "processEvent spec st1 ev = Some st2" "reaches spec st2 st3"
  shows "reaches spec st st3"
  using assms(3,1,2)
proof (induction rule: reaches.induct)
  case reaches_start
  then show ?case using reaches.reaches_start reaches.reaches_step by blast
next
  case (reaches_step s1 event s2 s3)
  then show ?case using reaches.reaches_step by blast
qed

lemma eventLoop_reaches:
  assumes "eventLoop spec st = Some st'"
  shows "reaches spec st st' \<and> events st' = []"
proof (rule eventLoop.raw_induct[where P = "\<lambda>spec st st'. reaches spec st st' \<and> events st' = []", OF _ assms])
  fix f :: "SimulationSpec \<Rightarrow> RunState \<Rightarrow> RunState option" and spec st st'
  assume IH: "\<And>spec st st'. f spec st = Some st' \<Longrightarrow> reaches spec st st' \<and> events st' = []"
  assume step: "(case popEvent st of None \<Rightarrow> Some st
      | Some (event, st1) \<Rightarrow> (case processEvent spec st1 event of None \<Rightarrow> None | Some st2 \<Rightarrow> f spec st2))
      = Some st'"
  show "reaches spec st st' \<and> events st' = []"
  proof (cases "popEvent st")
    case None
    then have "st' = st" using step by simp
    moreover have "events st = []" using None popEvent_None by blast
    ultimately show ?thesis using reaches_start by simp
  next
    case (Some a)
    obtain ev st1 where a: "a = (ev, st1)" by (cases a)
    from step Some a obtain st2 where h: "processEvent spec st1 ev = Some st2" and r: "f spec st2 = Some st'"
      by (auto split: option.splits)
    show ?thesis using IH[OF r] reaches_front[OF _ h] Some a by auto
  qed
qed

subsection \<open>The initial state\<close>

lemma arrivals_post_aux:
  assumes "arrivals spec u g evs txn t = Some r"
  shows "later g (fst r) \<and> (heap_ok evs \<longrightarrow> heap_ok (fst (snd r))) \<and> txn \<le> snd (snd r)
         \<and> fresh_purchases evs (fst (snd r)) {u} txn (snd (snd r)) (\<lambda>_. u)"
proof (rule arrivals.raw_induct[where P = "\<lambda>spec u g evs txn t r.
    later g (fst r) \<and> (heap_ok evs \<longrightarrow> heap_ok (fst (snd r))) \<and> txn \<le> snd (snd r)
    \<and> fresh_purchases evs (fst (snd r)) {u} txn (snd (snd r)) (\<lambda>_. u)", OF _ assms])
  fix f :: "SimulationSpec \<Rightarrow> nat \<Rightarrow> rng \<Rightarrow> MinHeap \<Rightarrow> nat \<Rightarrow> real \<Rightarrow> (rng \<times> MinHeap \<times> nat) option"
    and spec u g evs txn t r
  assume IH: "\<And>spec u g evs txn t r. f spec u g evs txn t = Some r \<Longrightarrow>
    later g (fst r) \<and> (heap_ok evs \<longrightarrow> heap_ok (fst (snd r))) \<and> txn \<le> snd (snd r)
    \<and> fresh_purchases evs (fst (snd r)) {u} txn (snd (snd r)) (\<lambda>_. u)"
  assume step: "(if t < horizonSec spec then
        (case sampleInterarrival g (purchaseRate (userModel spec) / 3600)
                (burstinessEnabled (userModel spec)) (burstinessProbability (userModel spec))
                (burstinessMultiplier (userModel spec)) of
           (None, g1) \<Rightarrow> Some (g1, evs, txn)
         | (Some gap, g1) \<Rightarrow>
             if t + gap > horizonSec spec then Some (g1, evs, txn)
             else (case sampleDistribution g1 (ticketDistribution (userModel spec)) of
                     None \<Rightarrow> None
                   | Some (amount, g2) \<Rightarrow>
                       f spec u g2
                         (push evs \<lparr> ev_timeSec = t + gap, ev_type = purchase, ev_userId = u,
                                     ev_txnId = txn, ev_amount = amount, relatedAmount = None,
                                     ev_settlement = None, isFraud = None \<rparr>)
                         (txn + 1) (t + gap)))
      else Some (g, evs, txn)) = Some r"
  obtain x g1 where si: "sampleInterarrival g (purchaseRate (userModel spec) / 3600)
                (burstinessEnabled (userModel spec)) (burstinessProbability (userModel spec))
                (burstinessMultiplier (userModel spec)) = (x, g1)"
    by (cases "sampleInterarrival g (purchaseRate (userModel spec) / 3600)
                (burstinessEnabled (userModel spec)) (burstinessProbability (userModel spec))
                (burstinessMultiplier (userModel spec))")
  have l1: "later g g1" using sampleInterarrival_later[OF si] .
  let ?Q = "later g (fst r) \<and> (heap_ok evs \<longrightarrow> heap_ok (fst (snd r))) \<and> txn \<le> snd (snd r)
         \<and> fresh_purchases evs (fst (snd r)) {u} txn (snd (snd r)) (\<lambda>_. u)"
  consider (stop) "r = (g, evs, txn)" | (stop1) "r = (g1, evs, txn)"
    | (go) gap amount g2 where "x = Some gap"
        "sampleDistribution g1 (ticketDistribution (userModel spec)) = Some (amount, g2)"
        "f spec u g2 (push evs \<lparr> ev_timeSec = t + gap, ev_type = purchase, ev_userId = u,
                                     ev_txnId = txn, ev_amount = amount, relatedAmount = None,
                                     ev_settlement = None, isFraud = None \<rparr>) (txn + 1) (t + gap) = Some r"
    using step si by (auto split: if_splits option.splits)
  then show ?Q
  proof cases
    case stop
    then show ?thesis by (simp add: fresh_purchases_def)
  next
    case stop1
    then show ?thesis using l1 by (simp add: fresh_purchases_def)
  next
    case go
    let ?e = "\<lparr> ev_timeSec = t + gap, ev_type = purchase, ev_userId = u,
                                     ev_txnId = txn, ev_amount = amount, relatedAmount = None,
                                     ev_settlement = None, isFraud = None \<rparr>"
    have l2: "later g1 g2" and am: "0 \<le> amount" using sampleDistribution_later[OF go(2)] by auto
    have ih: "later g2 (fst r) \<and> (heap_ok (push evs ?e) \<longrightarrow> heap_ok (fst (snd r))) \<and> txn + 1 \<le> snd (snd r)
      \<and> fresh_purchases (push evs ?e) (fst (snd r)) {u} (txn + 1) (snd (snd r)) (\<lambda>_. u)"
      using IH[OF go(3)] .
    have "later g (fst r)" using l1 l2 ih later_trans by blast
    moreover have "heap_ok evs \<longrightarrow> heap_ok (fst (snd r))" using ih push_heap by blast
    moreover have "txn \<le> snd (snd r)" using ih by simp
    moreover have "fresh_purchases evs (fst (snd r)) {u} txn (snd (snd r)) (\<lambda>_. u)"
      using ih am unfolding fresh_purchases_def by (auto; fastforce)
    ultimately show ?thesis by blast
  qed
qed

lemma arrivals_post:
  assumes "arrivals spec u g evs txn t = Some (g', evs', txn')"
  shows "later g g'" "heap_ok evs \<Longrightarrow> heap_ok evs'" "txn \<le> txn'"
    "fresh_purchases evs evs' {u} txn txn' (\<lambda>_. u)"
  using arrivals_post_aux[OF assms] by auto

lemma bootstrap_post:
  "bootstrap spec us (g, evs, bals, txn) = Some (g', evs', bals', txn') \<Longrightarrow>
     later g g' \<and> (heap_ok evs \<longrightarrow> heap_ok evs') \<and> txn \<le> txn'
     \<and> length bals' = length bals + length us
     \<and> (\<exists>own. fresh_purchases evs evs' (set us) txn txn' own)"
proof (induction us arbitrary: g evs bals txn)
  case Nil
  then show ?case by (auto simp: fresh_purchases_def)
next
  case (Cons u us)
  from Cons.prems obtain b g1 g2 evs2 txn2 where
    s: "sampleDistribution g (balanceDistribution (userModel spec)) = Some (b, g1)"
    and a: "arrivals spec u g1 evs txn 0 = Some (g2, evs2, txn2)"
    and r: "bootstrap spec us (g2, evs2, bals @ [b], txn2) = Some (g', evs', bals', txn')"
    by (auto split: option.splits)
  note A = arrivals_post[OF a]
  from Cons.IH[OF r] obtain own where
    ih: "later g2 g'" "heap_ok evs2 \<longrightarrow> heap_ok evs'" "txn2 \<le> txn'"
      "length bals' = length (bals @ [b]) + length us"
      "fresh_purchases evs2 evs' (set us) txn2 txn' own"
    by blast
  have l: "later g g'"
    using sampleDistribution_later[OF s] A(1) ih(1) later_trans by blast
  let ?own = "\<lambda>t. if t < txn2 then u else own t"
  have "fresh_purchases evs evs' (set (u # us)) txn txn' ?own"
    unfolding fresh_purchases_def
  proof
    fix e assume "e \<in> set evs'"
    then consider "e \<in> set evs2" | "ev_type e = purchase \<and> ev_userId e \<in> set us \<and> 0 \<le> ev_amount e
            \<and> txn2 \<le> ev_txnId e \<and> ev_txnId e < txn' \<and> own (ev_txnId e) = ev_userId e"
      using ih(5) by (auto simp: fresh_purchases_def)
    then show "e \<in> set evs \<or> (ev_type e = purchase \<and> ev_userId e \<in> set (u # us) \<and> 0 \<le> ev_amount e
            \<and> txn \<le> ev_txnId e \<and> ev_txnId e < txn' \<and> ?own (ev_txnId e) = ev_userId e)"
    proof cases
      case 1
      then show ?thesis using A(4) ih(3) by (auto simp: fresh_purchases_def)
    next
      case 2
      then show ?thesis using A(3) by auto
    qed
  qed
  then show ?case using l A(2) ih A(3) by auto
qed

lemma initialState_Some:
  assumes "initialState spec baseSeed runIndex = Some st0"
  shows "\<exists>g evs bals txn.
     bootstrap spec [0 ..< users (userModel spec)]
       (createRng (baseSeed @ ''-'' @ digits10 runIndex), [], [], 0) = Some (g, evs, bals, txn)
     \<and> rng_state st0 = g \<and> events st0 = evs \<and> balances st0 = bals
     \<and> holdTotals st0 = replicate (users (userModel spec)) 0
     \<and> holdByTxn st0 = Map.empty \<and> authContext st0 = Map.empty
     \<and> approvals st0 = [] \<and> declines st0 = [] \<and> timeouts st0 = []
     \<and> exposureEvents st0 = [] \<and> popped st0 = []
     \<and> skippedUnavailable st0 = 0 \<and> autoDeclined st0 = 0 \<and> insufficientFundsSkipped st0 = 0"
  using assms by (auto simp: initialState_def split: option.splits)

lemma heap_ok_Nil [simp]: "heap_ok []"
  by (simp add: heap_ok_def)

lemma initialState_facts:
  assumes "initialState spec baseSeed runIndex = Some st0"
  shows "heap_ok (events st0)" "rng_ok (rng_state st0)"
    "\<exists>own. \<forall>e\<in>set (events st0). ev_type e = purchase \<and> ev_userId e < users (userModel spec)
        \<and> 0 \<le> ev_amount e \<and> own (ev_txnId e) = ev_userId e"
    "length (balances st0) = users (userModel spec)"
proof -
  from initialState_Some[OF assms] obtain g evs bals txn where
    b: "bootstrap spec [0 ..< users (userModel spec)]
       (createRng (baseSeed @ ''-'' @ digits10 runIndex), [], [], 0) = Some (g, evs, bals, txn)"
    and f: "rng_state st0 = g" "events st0 = evs" "balances st0 = bals" by blast
  from bootstrap_post[OF b] obtain own where
    p: "later (createRng (baseSeed @ ''-'' @ digits10 runIndex)) g" "heap_ok evs"
      "length bals = users (userModel spec)"
      "fresh_purchases [] evs (set [0 ..< users (userModel spec)]) 0 txn own"
    by auto
  show "heap_ok (events st0)" using p f by simp
  show "rng_ok (rng_state st0)"
    using later_ok[OF mulberry32_ok p(1)[unfolded createRng_def]] f by simp
  show "length (balances st0) = users (userModel spec)" using p f by simp
  show "\<exists>own. \<forall>e\<in>set (events st0). ev_type e = purchase \<and> ev_userId e < users (userModel spec)
        \<and> 0 \<le> ev_amount e \<and> own (ev_txnId e) = ev_userId e"
    using p(4) f by (auto simp: fresh_purchases_def intro!: exI[of _ own])
qed

lemma initialState_order: "initialState spec baseSeed runIndex = Some st0 \<Longrightarrow> order_inv st0"
  using initialState_facts[of spec baseSeed runIndex st0] initialState_Some[of spec baseSeed runIndex st0]
  by (auto simp: order_inv_def settled_nonneg_def)


lemma finalState_reaches:
  assumes "finalState spec baseSeed runIndex = Some st"
  shows "\<exists>st0. initialState spec baseSeed runIndex = Some st0 \<and> reaches spec st0 st \<and> events st = []"
  using assms eventLoop_reaches by (auto simp: finalState_def split: option.splits)


section \<open>The run with one purchase\<close>

lemma draw_advance [simp]: "draw (advance k g) = (g k, advance (Suc k) g)"
  by (simp add: draw_def advance_def)

lemma draw_start: "draw g = (g 0, advance (Suc 0) g)"
  by (simp add: draw_def advance_def)

lemma seed_string: "''s'' @ ''-'' @ digits10 0 = ''s-0''"
proof -
  have "char_of (48::nat) = CHR ''0''" by code_simp
  then show ?thesis by (simp add: digits10.simps[of 0])
qed

lemma seed_rng: "createRng (''s'' @ ''-'' @ digits10 0) = run_rng"
  by (simp only: seed_string run_rng_def)

lemma seed_hash: "xmur3 ''s-0'' = 1418400325"
  by (simp add: xmur3_def xmur3_next_def rotl13_def imul_def Let_def)

lemma run_rng_2: "run_rng (Suc (Suc 0)) = 3934483994 / 4294967296"
  unfolding run_rng_def createRng_def seed_hash
  by (simp add: mulberry32_early mulberry32_out_def imul_def Let_def)

lemma run_rng_3: "run_rng (Suc (Suc (Suc 0))) = 1913483070 / 4294967296"
  unfolding run_rng_def createRng_def seed_hash
  by (simp add: mulberry32_early mulberry32_out_def imul_def Let_def)

lemma run_rng_4: "run_rng (Suc (Suc (Suc (Suc 0)))) = 1462606500 / 4294967296"
  unfolding run_rng_def createRng_def seed_hash
  by (simp add: mulberry32_early mulberry32_out_def imul_def Let_def)

lemma run_rng_5: "run_rng (Suc (Suc (Suc (Suc (Suc 0))))) = ledger_draw"
  unfolding run_rng_def createRng_def seed_hash ledger_draw_def
  by (simp add: mulberry32_early mulberry32_out_def imul_def Let_def)

lemma run_rng_6: "run_rng (Suc (Suc (Suc (Suc (Suc (Suc 0)))))) = 2457098178 / 4294967296"
  unfolding run_rng_def createRng_def seed_hash
  by (simp add: mulberry32_early mulberry32_out_def imul_def Let_def)

lemma lognormal_pos:
  "0 < m \<Longrightarrow> 0 < p \<Longrightarrow>
     \<exists>y. 0 < y \<and> sampleDistribution (advance k g) \<lparr> dtype = lognormal, mean = m, p95 = p \<rparr>
          = Some (y, advance (Suc (Suc k)) g)"
  by (simp add: sampleDistribution_def sampleLognormal_def normalSample_def Let_def)

lemma degenerate_zero [simp]:
  "sampleDistribution g degenerate_lognormal = Some (0, g)"
  by (simp add: sampleDistribution_def sampleLognormal_def degenerate_lognormal_def)

lemma advance_0 [simp]: "advance 0 g = g"
  by (simp add: advance_def)

lemma first_arrival_bounds: "0 < first_arrival" "first_arrival < 2"
proof -
  have "ln (1913483070 / 4294967296 :: real) < 0" by simp
  then show "0 < first_arrival" by (simp add: first_arrival_def)
  have "ln (4294967296 / 1913483070 :: real) \<le> 4294967296 / 1913483070 - 1"
    by (rule ln_le_minus_one) simp
  moreover have "ln (4294967296 / 1913483070 :: real) = - ln (1913483070 / 4294967296)"
    by (simp add: ln_div)
  ultimately show "first_arrival < 2" by (simp add: first_arrival_def)
qed


lemma push_single [simp]: "push [] e = [e]"
  by (simp add: push_def bubbleUp.simps)

lemma arrivals_one_user:
  assumes "userModel spec = one_user" "horizonHours spec = 1"
  shows "arrivals spec 0 (advance (Suc (Suc 0)) run_rng) [] 0 0
           = Some (advance (Suc (Suc (Suc (Suc (Suc 0))))) run_rng, [first_purchase], Suc 0)"
proof -
  have a: "sampleInterarrival (advance (Suc (Suc 0)) run_rng) 1 True (1 / 2) 0
             = (Some first_arrival, advance (Suc (Suc (Suc (Suc 0)))) run_rng)"
    by (simp add: sampleInterarrival_def run_rng_2 run_rng_3 first_arrival_def)
  have b: "sampleInterarrival (advance (Suc (Suc (Suc (Suc 0)))) run_rng) 1 True (1 / 2) 0
             = (None, advance (Suc (Suc (Suc (Suc (Suc 0))))) run_rng)"
    by (simp add: sampleInterarrival_def run_rng_4)
  have c: "arrivals spec 0 (advance (Suc (Suc (Suc (Suc 0)))) run_rng) [first_purchase] (Suc 0) first_arrival
             = Some (advance (Suc (Suc (Suc (Suc (Suc 0))))) run_rng, [first_purchase], Suc 0)"
    using first_arrival_bounds
    by (subst arrivals.simps) (simp add: assms one_user_def horizonSec_def b)
  show ?thesis
    using first_arrival_bounds
    by (subst arrivals.simps)
       (simp add: assms one_user_def horizonSec_def a c first_purchase_def[symmetric])
qed

lemma initial_one_user:
  assumes "userModel spec = one_user" "horizonHours spec = 1"
  shows "\<exists>st0 bal. initialState spec ''s'' 0 = Some st0 \<and> 0 < bal
           \<and> rng_state st0 = advance (Suc (Suc (Suc (Suc (Suc 0))))) run_rng
           \<and> events st0 = [first_purchase] \<and> balances st0 = [bal]
           \<and> holdTotals st0 = [0] \<and> holdCounts st0 = [0]
           \<and> holdByTxn st0 = Map.empty \<and> authContext st0 = Map.empty
           \<and> approvals st0 = [] \<and> declines st0 = [] \<and> timeouts st0 = []
           \<and> exposureEvents st0 = [] \<and> popped st0 = []
           \<and> skippedUnavailable st0 = 0 \<and> autoDeclined st0 = 0 \<and> insufficientFundsSkipped st0 = 0"
proof -
  obtain bal where bal: "0 < bal"
    "sampleDistribution (advance 0 run_rng) \<lparr> dtype = lognormal, mean = 100, p95 = 200 \<rparr>
       = Some (bal, advance (Suc (Suc 0)) run_rng)"
    using lognormal_pos[of 100 200 0 run_rng] by auto
  have u: "users (userModel spec) = 1"
    by (simp add: assms(1) one_user_def)
  have "bootstrap spec [0 ..< users (userModel spec)] (createRng (''s'' @ ''-'' @ digits10 0), [], [], 0)
          = Some (advance (Suc (Suc (Suc (Suc (Suc 0))))) run_rng, [first_purchase], [bal], Suc 0)"
    unfolding seed_rng using bal(2) arrivals_one_user[OF assms]
    by (simp add: assms(1) one_user_def)
  then have "initialState spec ''s'' 0
     = Some \<lparr> rng_state = advance (Suc (Suc (Suc (Suc (Suc 0))))) run_rng,
                 events = [first_purchase], balances = [bal],
                 holdTotals = replicate (users (userModel spec)) 0,
                 holdCounts = replicate (users (userModel spec)) 0,
                 pendingHoldSamples = [],
                 userDailySpend = Map.empty, userTimeslotSpend = Map.empty,
                 approvals = [], declines = [], timeouts = [], authTimes = [],
                 settlementTimes = [], retries = [], exposureEvents = [],
                 exposureDurations = [], authContext = Map.empty, holdByTxn = Map.empty,
                 overspendPrevented = 0, preAuthMismatchCount = 0, preAuthCount = 0,
                 incrementalAuthSuccessCount = 0, incrementalAuthCount = 0,
                 fraudAttempts = 0, fraudApprovals = 0, fraudExposureTotal = 0,
                 fraudApprovedAmount = 0, fraudLossTotal = 0, limitDeclines = 0,
                 totalSpent = 0, insufficientFundsSkipped = 0,
                 series = fst (initTimeSeries (horizonSec spec) 120),
                 popped = [], skippedUnavailable = 0, autoDeclined = 0 \<rparr>"
    unfolding initialState_def by (simp only: option.case prod.case)
  then show ?thesis
    using bal(1) by (simp add: u)
qed


lemma push_pair: "push [a] b = (if ev_timeSec a \<le> ev_timeSec b then [a, b] else [b, a])"
  by (simp add: push_def bubbleUp.simps[of _ "Suc 0"] bubbleUp.simps[of _ 0])

lemma pop_single: "pop [a] = Some (a, [])"
  by (simp add: pop_def)

lemma pop_pair: "pop [a, b] = Some (a, [b])"
  by (simp add: pop_def bubbleDown.simps[of "[b]"])

lemma settle_sure:
  "simulateSettlement (advance (Suc (Suc (Suc (Suc (Suc 0))))) run_rng) (ledger_spec L W) t outage_off
     = Some (settlement_of L, advance (Suc (Suc (Suc (Suc (Suc (Suc (Suc 0))))))) run_rng)"
  by (simp add: simulateSettlement_def simulateSettlement_run_def outage_off_def ledger_spec_def
        settle_loop.simps[of _ _ "advance (Suc (Suc (Suc (Suc (Suc 0))))) run_rng"]
        sampleLedgerInterval_def run_rng_5 run_rng_6 settlement_of_def)

lemma legs_none [simp]:
  "sampleNetworkLegs g no_latency = Some (\<lparr> t1 = 0, t2 = 0, t3 = 0, t4 = 0 \<rparr>, g)"
  by (simp add: sampleNetworkLegs_def no_latency_def)

lemma purchase_step:
  assumes "0 < bal" "ledger_draw * L < 300"
    and "rng_state st = advance (Suc (Suc (Suc (Suc (Suc 0))))) run_rng"
    and "events st = []" "balances st = [bal]" "holdTotals st = [0]" "holdCounts st = [0]"
  shows "handlePurchase (purchase_spec L W) st first_purchase
     = Some (st\<lparr> rng_state := advance (Suc (Suc (Suc (Suc (Suc (Suc (Suc 0))))))) run_rng,
                    approvals := approvals st @ [0],
                    authTimes := authTimes st @ [0],
                    series := addTimeSeriesPoint (series st) (binSize (purchase_spec L W))
                                first_arrival key_approvals,
                    totalSpent := totalSpent st + 0,
                    holdTotals := [0], holdCounts := [1],
                    pendingHoldSamples := pendingHoldSamples st @ [1],
                    events := [first_settlement L, first_expiry],
                    holdByTxn := (holdByTxn st)(0 \<mapsto>
                       \<lparr> hold_userId = 0, hold_amount = 0, approvalTime = first_arrival \<rparr>) \<rparr>)"
  using assms
  apply (simp add: handlePurchase_def first_purchase_def purchase_spec_def)
  apply (simp add: authorizePurchase_def canApproveWithLimits_def)
  apply (simp add: approvePurchase_def recordApproval_def applySpendLimits_def placeHold_def
          settle_sure Let_def push_pair first_settlement_def first_expiry_def settlement_of_def)
  done


lemma settlement_step:
  assumes "0 < bal" "balances st = [bal]" "holdTotals st = [0]" "holdCounts st = [1]"
    and "holdByTxn st 0 = Some \<lparr> hold_userId = 0, hold_amount = 0, approvalTime = first_arrival \<rparr>"
  shows "\<exists>st'. handleSettlement (purchase_spec L W) st (first_settlement L) = st'
     \<and> events st' = events st \<and> popped st' = popped st \<and> rng_state st' = rng_state st
     \<and> approvals st' = approvals st \<and> declines st' = declines st \<and> timeouts st' = timeouts st
     \<and> skippedUnavailable st' = skippedUnavailable st \<and> autoDeclined st' = autoDeclined st
     \<and> insufficientFundsSkipped st' = insufficientFundsSkipped st
     \<and> holdTotals st' = [0] \<and> holdByTxn st' 0 = None
     \<and> exposureEvents st' = exposureEvents st @
           (if 0 < ledger_draw * L
            then [\<lparr> exp_userId = 0, exp_amount = 0, startSec = first_arrival,
                     endSec = first_arrival + min (ledger_draw * L) W \<rparr>]
            else [])"
  using assms
  by (simp add: handleSettlement_def first_settlement_def purchase_spec_def settleOffchain_def
        settlement_of_def ledger_spec_def Let_def)

lemma run_purchase_spec:
  assumes "ledger_draw * L < 300"
  shows "\<exists>st0 st. initialState (purchase_spec L W) ''s'' 0 = Some st0
     \<and> eventLoop (purchase_spec L W) st0 = Some st
     \<and> popped st = [first_purchase, first_settlement L, first_expiry]
     \<and> approvals st = [0] \<and> declines st = [] \<and> timeouts st = []
     \<and> skippedUnavailable st = 0 \<and> autoDeclined st = 0 \<and> insufficientFundsSkipped st = 0
     \<and> holdTotals st = [0]
     \<and> exposureEvents st =
           (if 0 < ledger_draw * L
            then [\<lparr> exp_userId = 0, exp_amount = 0, startSec = first_arrival,
                     endSec = first_arrival + min (ledger_draw * L) W \<rparr>]
            else [])"
proof -
  let ?spec = "purchase_spec L W"
  have "userModel ?spec = one_user" "horizonHours ?spec = 1"
    by (simp_all add: purchase_spec_def)
  from initial_one_user[OF this] obtain st0 bal where
    init: "initialState ?spec ''s'' 0 = Some st0" and bal: "0 < bal"
    and s0: "rng_state st0 = advance (Suc (Suc (Suc (Suc (Suc 0))))) run_rng"
      "events st0 = [first_purchase]" "balances st0 = [bal]"
      "holdTotals st0 = [0]" "holdCounts st0 = [0]"
      "holdByTxn st0 = Map.empty" "authContext st0 = Map.empty"
      "approvals st0 = []" "declines st0 = []" "timeouts st0 = []"
      "exposureEvents st0 = []" "popped st0 = []"
      "skippedUnavailable st0 = 0" "autoDeclined st0 = 0" "insufficientFundsSkipped st0 = 0"
    by blast
  define st1 where "st1 = st0\<lparr> events := [], popped := [first_purchase] \<rparr>"
  have p0: "popEvent st0 = Some (first_purchase, st1)"
    by (simp add: popEvent_def s0 pop_single st1_def)
  obtain st2 where h1: "handlePurchase ?spec st1 first_purchase = Some st2"
    and s2: "events st2 = [first_settlement L, first_expiry]" "popped st2 = [first_purchase]"
      "balances st2 = [bal]" "holdTotals st2 = [0]" "holdCounts st2 = [1]"
      "holdByTxn st2 0 = Some \<lparr> hold_userId = 0, hold_amount = 0, approvalTime = first_arrival \<rparr>"
      "approvals st2 = [0]" "declines st2 = []" "timeouts st2 = []" "exposureEvents st2 = []"
      "skippedUnavailable st2 = 0" "autoDeclined st2 = 0" "insufficientFundsSkipped st2 = 0"
    using purchase_step[of bal L st1 W, OF bal assms] by (simp add: st1_def s0)
  have e1: "processEvent ?spec st1 first_purchase = Some st2"
    using h1 by (simp add: processEvent_def first_purchase_def)
  define st3 where "st3 = st2\<lparr> events := [first_expiry], popped := [first_purchase, first_settlement L] \<rparr>"
  have p2: "popEvent st2 = Some (first_settlement L, st3)"
    by (simp add: popEvent_def s2 pop_pair st3_def)
  obtain st4 where h3: "handleSettlement ?spec st3 (first_settlement L) = st4"
    and s4: "events st4 = [first_expiry]" "popped st4 = [first_purchase, first_settlement L]"
      "approvals st4 = [0]" "declines st4 = []" "timeouts st4 = []"
      "skippedUnavailable st4 = 0" "autoDeclined st4 = 0" "insufficientFundsSkipped st4 = 0"
      "holdTotals st4 = [0]" "holdByTxn st4 0 = None"
      "exposureEvents st4 =
           (if 0 < ledger_draw * L
            then [\<lparr> exp_userId = 0, exp_amount = 0, startSec = first_arrival,
                     endSec = first_arrival + min (ledger_draw * L) W \<rparr>]
            else [])"
    using settlement_step[of bal st3 L W, OF bal] by (simp add: st3_def s2)
  have e3: "processEvent ?spec st3 (first_settlement L) = Some st4"
    using h3 by (simp add: processEvent_def first_settlement_def)
  define st5 where "st5 = st4\<lparr> events := [], popped := [first_purchase, first_settlement L, first_expiry] \<rparr>"
  have p4: "popEvent st4 = Some (first_expiry, st5)"
    by (simp add: popEvent_def s4 pop_single st5_def)
  have e5: "processEvent ?spec st5 first_expiry = Some st5"
    by (simp add: processEvent_def handleHoldExpiry_def st5_def s4 first_expiry_def)
  have p5: "popEvent st5 = None"
    by (simp add: popEvent_def st5_def)
  have "eventLoop ?spec st5 = Some st5"
    by (subst eventLoop.simps) (simp add: p5)
  then have "eventLoop ?spec st4 = Some st5"
    by (subst eventLoop.simps) (simp add: p4 e5)
  then have "eventLoop ?spec st2 = Some st5"
    by (subst eventLoop.simps) (simp add: p2 e3)
  then have "eventLoop ?spec st0 = Some st5"
    by (subst eventLoop.simps) (simp add: p0 e1)
  then show ?thesis
    using init by (simp add: st5_def s4)
qed

lemma run_all_fraud:
  "\<exists>st. finalState all_fraud_spec ''s'' 0 = Some st
     \<and> popped st = [first_purchase]
     \<and> approvals st = [] \<and> declines st = [0] \<and> timeouts st = []
     \<and> skippedUnavailable st = 0 \<and> insufficientFundsSkipped st = 0 \<and> autoDeclined st = 1"
proof -
  let ?spec = "all_fraud_spec"
  have "userModel ?spec = one_user" "horizonHours ?spec = 1"
    by (simp_all add: all_fraud_spec_def one_purchase_spec_def purchase_spec_def)
  from initial_one_user[OF this] obtain st0 bal where
    init: "initialState ?spec ''s'' 0 = Some st0" and bal: "0 < bal"
    and s0: "rng_state st0 = advance (Suc (Suc (Suc (Suc (Suc 0))))) run_rng"
      "events st0 = [first_purchase]" "balances st0 = [bal]"
      "holdTotals st0 = [0]" "holdCounts st0 = [0]"
      "holdByTxn st0 = Map.empty" "authContext st0 = Map.empty"
      "approvals st0 = []" "declines st0 = []" "timeouts st0 = []"
      "exposureEvents st0 = []" "popped st0 = []"
      "skippedUnavailable st0 = 0" "autoDeclined st0 = 0" "insufficientFundsSkipped st0 = 0"
    by blast
  define st1 where "st1 = st0\<lparr> events := [], popped := [first_purchase] \<rparr>"
  have p0: "popEvent st0 = Some (first_purchase, st1)"
    by (simp add: popEvent_def s0 pop_single st1_def)
  have d: "ledger_draw < 1" by (simp add: ledger_draw_def)
  have z: "sampleDistribution g \<lparr> dtype = lognormal, mean = 0, p95 = 0 \<rparr> = Some (0, g)" for g
    by (simp add: sampleDistribution_def sampleLognormal_def)
  obtain st2 where h1: "handlePurchase ?spec st1 first_purchase = Some st2"
    and s2: "events st2 = []" "popped st2 = [first_purchase]"
      "approvals st2 = []" "declines st2 = [0]" "timeouts st2 = []"
      "skippedUnavailable st2 = 0" "autoDeclined st2 = 1" "insufficientFundsSkipped st2 = 0"
    using bal d
    by (simp add: handlePurchase_def st1_def s0 first_purchase_def all_fraud_spec_def
          run_rng_5 run_rng_6 z)
  have e1: "processEvent ?spec st1 first_purchase = Some st2"
    using h1 by (simp add: processEvent_def first_purchase_def)
  have p2: "popEvent st2 = None"
    by (simp add: popEvent_def s2)
  have "eventLoop ?spec st2 = Some st2"
    by (subst eventLoop.simps) (simp add: p2)
  then have "eventLoop ?spec st0 = Some st2"
    by (subst eventLoop.simps) (simp add: p0 e1)
  then show ?thesis
    using init by (simp add: finalState_def s2)
qed



section \<open>Order of the popped events\<close>

text \<open>
  C5, as stated: with a non-negative hold duration and a non-negative backoff base the
  times of the popped events never decrease.  That fails when the mean ledger close time
  is negative and the jitter is off: the settlement of the one purchase of the run below
  is scheduled before the purchase that caused it, and is popped after it.
\<close>

theorem popped_times_counterexample:
  "0 \<le> holdDurationSec (holds negative_ledger_spec)
   \<and> 0 \<le> backoffBaseMs (stellar negative_ledger_spec)
   \<and> map_option popped_times (finalState negative_ledger_spec ''s'' 0)
       = Some [first_arrival, first_arrival - 1000 * ledger_draw, first_arrival + 300]
   \<and> \<not> sorted [first_arrival, first_arrival - 1000 * ledger_draw, first_arrival + 300]"
proof -
  have "ledger_draw * (- 1000) < 300"
    by (simp add: ledger_draw_def)
  from run_purchase_spec[OF this, of 60]
  have "map_option popped_times (finalState negative_ledger_spec ''s'' 0)
       = Some [first_arrival, first_arrival - 1000 * ledger_draw, first_arrival + 300]"
    by (auto simp: finalState_def negative_ledger_spec_def popped_times_def first_purchase_def
          first_settlement_def first_expiry_def)
  moreover have "\<not> sorted [first_arrival, first_arrival - 1000 * ledger_draw, first_arrival + 300]"
    by (simp add: ledger_draw_def)
  ultimately show ?thesis
    by (simp add: negative_ledger_spec_def purchase_spec_def ledger_spec_def)
qed

text \<open>
  C5, amended: when the hold duration, the backoff base and the backoff multiplier are
  non-negative, the mean ledger close time is non-negative unless the jitter is positive,
  and the submission delay multiplier of an enabled outage is non-negative, then at every
  point of a run the times of the events popped so far are in non-decreasing order.
\<close>

theorem popped_times_sorted:
  assumes "nonneg_delays spec"
    and "initialState spec baseSeed runIndex = Some st0"
    and "reaches spec st0 st"
  shows "sorted (popped_times st)"
proof -
  have "order_inv st"
    using assms(3) initialState_order[OF assms(2)] order_inv_step[OF assms(1)]
    by (rule reaches_invariant)
  then show ?thesis by (simp add: order_inv_def popped_times_def)
qed

theorem popped_times_sorted_witness:
  "nonneg_delays one_purchase_spec
   \<and> (\<exists>st0 st. initialState one_purchase_spec ''s'' 0 = Some st0
         \<and> reaches one_purchase_spec st0 st
         \<and> popped_times st = [first_arrival, first_arrival + ledger_draw * 6, first_arrival + 300]
         \<and> sorted (popped_times st))"
proof -
  have n: "nonneg_delays one_purchase_spec"
    by (simp add: nonneg_delays_def stellar_nonneg_def one_purchase_spec_def purchase_spec_def
          ledger_spec_def outage_off_def)
  have "ledger_draw * 6 < 300"
    by (simp add: ledger_draw_def)
  from run_purchase_spec[OF this, of 60] obtain st0 st where
    r: "initialState one_purchase_spec ''s'' 0 = Some st0"
       "eventLoop one_purchase_spec st0 = Some st"
       "popped st = [first_purchase, first_settlement 6, first_expiry]"
    unfolding one_purchase_spec_def by blast
  have re: "reaches one_purchase_spec st0 st"
    using eventLoop_reaches[OF r(2)] by simp
  have "popped_times st = [first_arrival, first_arrival + ledger_draw * 6, first_arrival + 300]"
    by (simp add: popped_times_def r(3) first_purchase_def first_settlement_def first_expiry_def)
  moreover have "sorted (popped_times st)"
    using popped_times_sorted[OF n r(1) re] .
  ultimately show ?thesis
    using n r(1) re by blast
qed


section \<open>Exposure events\<close>





lemma handleHoldExpiry_exposure [simp]:
  "exposureEvents (handleHoldExpiry st ev) = exposureEvents st"
  by (simp add: handleHoldExpiry_def Let_def split: option.splits)

lemma settleWaitOnChain_exposure [simp]:
  "exposureEvents (settleWaitOnChain spec st ev stl) = exposureEvents st"
  by (simp add: settleWaitOnChain_def Let_def split: option.splits)



lemma popEvent_fields:
  assumes "popEvent st = Some (ev, st1)"
  shows "set (events st) = insert ev (set (events st1))"
    "mset (events st) = add_mset ev (mset (events st1))"
    "popped st1 = popped st @ [ev]"
    "exposureEvents st1 = exposureEvents st"
    "holdTotals st1 = holdTotals st" "holdByTxn st1 = holdByTxn st" "balances st1 = balances st"
    "approvals st1 = approvals st" "declines st1 = declines st" "timeouts st1 = timeouts st"
    "skippedUnavailable st1 = skippedUnavailable st"
    "insufficientFundsSkipped st1 = insufficientFundsSkipped st"
    "autoDeclined st1 = autoDeclined st" "authContext st1 = authContext st"
    "rng_state st1 = rng_state st"
proof -
  from popEvent_Some[OF assms] obtain rest where pr: "pop (events st) = Some (ev, rest)"
    and s1: "st1 = st\<lparr> events := rest, popped := popped st @ [ev] \<rparr>" by blast
  have pp: "pop (events st) = Some (ev, events st1)" using pr s1 by simp
  show m: "mset (events st) = add_mset ev (mset (events st1))" using pop_mset(1)[OF pp] .
  have "set_mset (mset (events st)) = insert ev (set_mset (mset (events st1)))"
    unfolding m by simp
  then show "set (events st) = insert ev (set (events st1))" by simp
  show "popped st1 = popped st @ [ev]"
    "exposureEvents st1 = exposureEvents st"
    "holdTotals st1 = holdTotals st" "holdByTxn st1 = holdByTxn st" "balances st1 = balances st"
    "approvals st1 = approvals st" "declines st1 = declines st" "timeouts st1 = timeouts st"
    "skippedUnavailable st1 = skippedUnavailable st"
    "insufficientFundsSkipped st1 = insufficientFundsSkipped st"
    "autoDeclined st1 = autoDeclined st" "authContext st1 = authContext st"
    "rng_state st1 = rng_state st"
    using s1 by simp_all
qed










text \<open>
  The end of an exposure event is the sum of its start and of the smaller of the
  settlement time and the settlement window, and the recorded duration is the difference
  of the end and the start.  Both are exact here and rounded in the source, where the
  difference can exceed what was added: for the doubles \<open>2.272615045805621\<close> and \<open>7.3\<close>
  the sum is \<open>9.572615045805621\<close>, less the first it is above \<open>7.3\<close>, and as a double it is
  \<open>7.300000000000001\<close>.  So the theorem below is about the order of the start and the end,
  which no rounding changes, and not about the duration.
\<close>

lemma duration_roundoff:
  "to_double (5117474136723389 / 2 ^ 51 + 8219069319951155 / 2 ^ 50) = 5388903194156425 / 2 ^ 49
   \<and> 8219069319951155 / 2 ^ 50 < (5388903194156425 / 2 ^ 49 - 5117474136723389 / 2 ^ 51 :: real)
   \<and> to_double (5388903194156425 / 2 ^ 49 - 5117474136723389 / 2 ^ 51) = 8219069319951156 / 2 ^ 50"
proof -
  have a: "to_double (5117474136723389 / 2 ^ 51 + 8219069319951155 / 2 ^ 50) = 5388903194156425 / 2 ^ 49"
    by (subst to_double_eval[where k = 3]) (simp_all add: powr_neg_numeral round_half_even_def)
  have b: "to_double (5388903194156425 / 2 ^ 49 - 5117474136723389 / 2 ^ 51) = 8219069319951156 / 2 ^ 50"
    by (subst to_double_eval[where k = 2]) (simp_all add: powr_neg_numeral round_half_even_def)
  have c: "8219069319951155 / 2 ^ 50 < (5388903194156425 / 2 ^ 49 - 5117474136723389 / 2 ^ 51 :: real)"
    by simp
  show ?thesis using a b c by (intro conjI)
qed





section \<open>Conservation of purchase attempts\<close>

lemma approvePurchase_count:
  "approvePurchase spec st ev amount fr doneAt authT = Some st' \<Longrightarrow> count_step 1 st st'"
  by (auto simp: approvePurchase_def Let_def count_step_def decided_def skipped_def
        split: option.splits if_splits)

lemma authorizePurchase_count:
  assumes "authorizePurchase spec st ev amount fr = Some st'"
  shows "if mode spec = wait_on_chain
         then count_step 0 st st' \<and> schedules ev st st'
         else count_step 1 st st'"
proof (cases "mode spec = wait_on_chain")
  case True
  from assms obtain legs g1 processingMs g2 where
    s1: "sampleNetworkLegs (rng_state st) (networkLatency spec) = Some (legs, g1)"
    and s2: "sampleDistribution g1 (issuerProcessing spec) = Some (processingMs, g2)"
    by (auto simp: authorizePurchase_def Let_def split: option.splits)
  from assms True s1 s2 obtain stl g3 where
    s: "simulateSettlement g2 (stellar spec) (ev_timeSec ev + t1 legs + t2 legs + processingMs / 1000)
          (outage spec) = Some (stl, g3)"
    by (auto simp: authorizePurchase_def Let_def split: option.splits)
  have st': "st' = st\<lparr> rng_state := g3,
              authContext := (authContext st)(ev_txnId ev \<mapsto>
                \<lparr> requestTime = ev_timeSec ev, legsOut = t3 legs + t4 legs,
                  issuerDone = ev_timeSec ev + t1 legs + t2 legs + processingMs / 1000,
                  ctx_amount = amount, ctx_isFraud = fr \<rparr>),
              events := push (events st)
                \<lparr> ev_timeSec = ev_timeSec ev + t1 legs + t2 legs + processingMs / 1000 + sr_timeSec stl,
                  ev_type = settlement, ev_userId = ev_userId ev,
                  ev_txnId = ev_txnId ev, ev_amount = amount,
                  relatedAmount = None, ev_settlement = Some stl,
                  isFraud = Some fr \<rparr> \<rparr>"
    using assms True s1 s2 s by (simp add: authorizePurchase_def Let_def)
  have "count_step 0 st st'"
    by (simp add: st' count_step_def decided_def skipped_def)
  moreover have "schedules ev st st'"
    unfolding schedules_def
    by (rule exI[of _ "\<lparr> ev_timeSec = ev_timeSec ev + t1 legs + t2 legs + processingMs / 1000 + sr_timeSec stl,
                  ev_type = settlement, ev_userId = ev_userId ev,
                  ev_txnId = ev_txnId ev, ev_amount = amount,
                  relatedAmount = None, ev_settlement = Some stl,
                  isFraud = Some fr \<rparr>"],
        rule exI[of _ "\<lparr> requestTime = ev_timeSec ev, legsOut = t3 legs + t4 legs,
                  issuerDone = ev_timeSec ev + t1 legs + t2 legs + processingMs / 1000,
                  ctx_amount = amount, ctx_isFraud = fr \<rparr>"])
       (simp add: st')
  ultimately show ?thesis using True by simp
next
  case False
  have "count_step 1 st st'"
    if "approvePurchase spec (st\<lparr> rng_state := g \<rparr>) ev amount fr d a = Some st'" for g d a
    using approvePurchase_count[OF that] by (simp add: count_step_def decided_def skipped_def)
  then show ?thesis using assms False
    by (auto simp: authorizePurchase_def Let_def count_step_def decided_def skipped_def
          split: option.splits if_splits)
qed

lemma handlePurchase_count:
  assumes h: "handlePurchase spec st ev = Some st'"
  shows "if mode spec = wait_on_chain
         then (count_step 1 st st' \<and> keeps_queue st st') \<or> (count_step 0 st st' \<and> schedules ev st st')
         else count_step 1 st st'"
proof -
  have auth: "(if mode spec = wait_on_chain
         then count_step 0 st st' \<and> schedules ev st st'
         else count_step 1 st st')"
    if "authorizePurchase spec (st\<lparr> rng_state := g, fraudAttempts := k \<rparr>) ev amount fr = Some st'"
    for g amount fr k
  proof -
    let ?s = "st\<lparr> rng_state := g, fraudAttempts := k \<rparr>"
    have "count_step n ?s st' = count_step n st st'" for n
      by (simp add: count_step_def decided_def skipped_def)
    moreover have "schedules ev ?s st' = schedules ev st st'"
      by (simp add: schedules_def)
    ultimately show ?thesis using authorizePurchase_count[OF that] by (simp cong: if_cong)
  qed
  show ?thesis
  proof (cases "balances st ! ev_userId ev - holdTotals st ! ev_userId ev \<le> 0")
    case True
    then have "st' = st\<lparr> skippedUnavailable := skippedUnavailable st + 1 \<rparr>"
      using h by (simp add: handlePurchase_def Let_def)
    then show ?thesis by (simp add: count_step_def decided_def skipped_def keeps_queue_def)
  next
    case False
    obtain fr g1 where fd: "(if fraud_enabled (fraud spec)
                 then (case draw (rng_state st) of (r, g1) \<Rightarrow> (r < fraudAttemptRate (fraud spec), g1))
                 else (False, rng_state st)) = (fr, g1)"
      by (cases "(if fraud_enabled (fraud spec)
                 then (case draw (rng_state st) of (r, g1) \<Rightarrow> (r < fraudAttemptRate (fraud spec), g1))
                 else (False, rng_state st))")
    show ?thesis
    proof (cases fr)
      case False
      have "authorizePurchase spec (st\<lparr> rng_state := g1 \<rparr>) ev (ev_amount ev) False = Some st'"
        using h \<open>\<not> balances st ! ev_userId ev - holdTotals st ! ev_userId ev \<le> 0\<close> False
        unfolding handlePurchase_def Let_def fd by simp
      then have "authorizePurchase spec (st\<lparr> rng_state := g1, fraudAttempts := fraudAttempts st \<rparr>)
                   ev (ev_amount ev) False = Some st'"
        by simp
      from auth[OF this] show ?thesis by (simp split: if_splits)
    next
      case True
      from h \<open>\<not> balances st ! ev_userId ev - holdTotals st ! ev_userId ev \<le> 0\<close> True
      obtain multiplier g2 where sd: "sampleDistribution g1
                         \<lparr> dtype = lognormal, mean = fraudAmountMultiplierMean (fraud spec),
                           p95 = fraudAmountMultiplierP95 (fraud spec) \<rparr> = Some (multiplier, g2)"
        unfolding handlePurchase_def Let_def fd by (auto split: option.splits)
      obtain r g3 where dr: "draw g2 = (r, g3)" by (cases "draw g2")
      show ?thesis
      proof (cases "r < autoDeclineRate (fraud spec)")
        case True
        have "st' = st\<lparr> rng_state := g3,
                                     fraudAttempts := fraudAttempts st + 1,
                                     declines := declines st @ [ev_txnId ev],
                                     series := addTimeSeriesPoint (series st) (binSize spec)
                                                 (ev_timeSec ev) key_declines,
                                     autoDeclined := autoDeclined st + 1 \<rparr>"
          using h \<open>\<not> balances st ! ev_userId ev - holdTotals st ! ev_userId ev \<le> 0\<close> \<open>fr\<close> True
          unfolding handlePurchase_def Let_def fd by (simp add: sd dr)
        then show ?thesis by (simp add: count_step_def decided_def skipped_def keeps_queue_def)
      next
        case False
        have "authorizePurchase spec (st\<lparr> rng_state := g3, fraudAttempts := fraudAttempts st + 1 \<rparr>)
                ev (ev_amount ev * multiplier) True = Some st'"
          using h \<open>\<not> balances st ! ev_userId ev - holdTotals st ! ev_userId ev \<le> 0\<close> \<open>fr\<close> False
          unfolding handlePurchase_def Let_def fd by (simp add: sd dr)
        from auth[OF this] show ?thesis by (simp split: if_splits)
      qed
    qed
  qed
qed

lemma handleCompletion_count:
  "handleCompletion spec st ev = Some st' \<Longrightarrow> count_step 0 st st'"
  by (auto simp: handleCompletion_def Let_def count_step_def decided_def skipped_def
        split: option.splits)

lemma handleHoldExpiry_count: "count_step 0 st (handleHoldExpiry st ev)"
  by (simp add: handleHoldExpiry_def Let_def count_step_def decided_def skipped_def
        split: option.splits)

lemma settleOffchain_count: "count_step 0 st (settleOffchain spec st ev stl)"
  by (simp add: settleOffchain_def Let_def count_step_def decided_def skipped_def
        split: option.splits)

lemma settleWaitOnChain_count:
  "authContext st (ev_txnId ev) \<noteq> None \<Longrightarrow>
     count_step 1 st (settleWaitOnChain spec st ev stl)
     \<and> keeps_queue st (settleWaitOnChain spec st ev stl)"
  by (auto simp: settleWaitOnChain_def Let_def count_step_def decided_def skipped_def
        keeps_queue_def split: option.splits)


lemma filter_length_mset:
  assumes "mset xs = add_mset x (mset ys)"
  shows "length (filter P xs) = (if P x then 1 else 0) + length (filter P ys)"
proof -
  have "length (filter P xs) = size (filter_mset P (mset xs))"
    by (metis mset_filter size_mset)
  also have "\<dots> = (if P x then 1 else 0) + size (filter_mset P (mset ys))"
    unfolding assms by simp
  also have "size (filter_mset P (mset ys)) = length (filter P ys)"
    by (metis mset_filter size_mset)
  finally show ?thesis .
qed

lemma set_from_mset:
  assumes "mset xs = add_mset x (mset ys)"
  shows "set xs = insert x (set ys)"
proof -
  have "set_mset (mset xs) = insert x (set_mset (mset ys))" unfolding assms by simp
  then show ?thesis by simp
qed

lemma conservation_step:
  assumes inv: "conservation_inv spec s" and p: "popEvent s = Some (ev, s1)"
    and h: "processEvent spec s1 ev = Some s2"
  shows "conservation_inv spec s2"
proof -
  note f = popEvent_fields[OF p]
  have c1: "decided s1 = decided s" "skipped s1 = skipped s"
    using f by (simp_all add: decided_def skipped_def)
  have pp: "purchases_popped s1 = purchases_popped s + (if ev_type ev = purchase then 1 else 0)"
    using f(3) by (simp add: purchases_popped_def)
  have cnt: "length (filter (\<lambda>e. ev_type e = settlement) (events s))
       = (if ev_type ev = settlement then 1 else 0)
         + length (filter (\<lambda>e. ev_type e = settlement) (events s1))"
    using filter_length_mset[OF f(2)] .
  have eq: "decided s + skipped s + pending_settlements spec s = purchases_popped s"
    and ad: "autoDeclined s \<le> length (declines s)" and wf: "queue_wf spec s"
    using inv by (simp_all add: conservation_inv_def)
  have step0: "conservation_inv spec s2"
    if "count_step k s1 s2" "k = (if ev_type ev = purchase then 1 else 0)" "mode spec \<noteq> wait_on_chain"
    for k
    using that eq ad c1 pp f
    by (auto simp: conservation_inv_def count_step_def pending_settlements_def queue_wf_def
          purchases_popped_def)
  show ?thesis
  proof (cases "mode spec = wait_on_chain")
    case False
    show ?thesis
    proof (cases "ev_type ev")
      case purchase
      then have "count_step 1 s1 s2"
        using h handlePurchase_count[of spec s1 ev s2] False by (simp add: processEvent_def)
      then show ?thesis using step0 purchase False by simp
    next
      case settlement
      then have "count_step 0 s1 s2"
        using h False settleOffchain_count[of s1 spec ev]
        by (auto simp: processEvent_def handleSettlement_def count_step_def split: option.splits)
      then show ?thesis using step0 settlement False by simp
    next
      case hold_expiry
      then have "count_step 0 s1 s2"
        using h handleHoldExpiry_count[of s1 ev] by (auto simp: processEvent_def)
      then show ?thesis using step0 hold_expiry False by simp
    next
      case completion
      then have "count_step 0 s1 s2"
        using h handleCompletion_count[of spec s1 ev s2] by (simp add: processEvent_def)
      then show ?thesis using step0 completion False by simp
    qed
  next
    case True
    have evq: "ev \<in> set (events s)" using f(1) by simp
    have sub: "set (events s1) \<subseteq> set (events s)" using f(1) by auto
    have wf1: "\<forall>e\<in>set (events s1). ev_type e = purchase
            \<or> (ev_type e = settlement \<and> ev_settlement e \<noteq> None
                \<and> authContext s1 (ev_txnId e) \<noteq> None)"
      using wf True sub f by (auto simp: queue_wf_def)
    have pend: "pending_settlements spec s
       = (if ev_type ev = settlement then 1 else 0)
         + length (filter (\<lambda>e. ev_type e = settlement) (events s1))"
      using cnt True by (simp add: pending_settlements_def)
    consider (purchase) "ev_type ev = purchase"
      | (settlement) stl where "ev_type ev = settlement" "ev_settlement ev = Some stl"
          "authContext s1 (ev_txnId ev) \<noteq> None"
      using wf True evq f by (auto simp: queue_wf_def)
    then show ?thesis
    proof cases
      case purchase
      then have hp: "handlePurchase spec s1 ev = Some s2"
        using h by (simp add: processEvent_def)
      from handlePurchase_count[OF hp] True
      consider (decided_now) "count_step 1 s1 s2" "keeps_queue s1 s2"
        | (queued) "count_step 0 s1 s2" "schedules ev s1 s2"
        by auto
      then show ?thesis
      proof cases
        case decided_now
        then show ?thesis using eq ad c1 pp f pend wf1 purchase True
          by (auto simp: conservation_inv_def count_step_def pending_settlements_def queue_wf_def
                purchases_popped_def keeps_queue_def)
      next
        case queued
        from queued(2) obtain e c where
          m: "mset (events s2) = add_mset e (mset (events s1))" and e: "ev_type e = settlement"
            "ev_settlement e \<noteq> None" "ev_txnId e = ev_txnId ev"
          and ac: "authContext s2 = (authContext s1)(ev_txnId ev \<mapsto> c)"
          by (auto simp: schedules_def)
        have cnt2: "length (filter (\<lambda>e. ev_type e = settlement) (events s2))
            = 1 + length (filter (\<lambda>e. ev_type e = settlement) (events s1))"
          using filter_length_mset[OF m, of "\<lambda>e. ev_type e = settlement"] e by simp
        have set2: "set (events s2) = insert e (set (events s1))"
          using set_from_mset[OF m] .
        have "queue_wf spec s2"
          unfolding queue_wf_def set2 using wf1 e ac by auto
        moreover have "decided s2 + skipped s2 + pending_settlements spec s2 = purchases_popped s2"
          using queued(1) eq c1 pp pend purchase True cnt2
          by (simp add: count_step_def pending_settlements_def purchases_popped_def)
        moreover have "autoDeclined s2 \<le> length (declines s2)"
          using queued(1) ad f by (simp add: count_step_def)
        ultimately show ?thesis by (simp add: conservation_inv_def)
      qed
    next
      case settlement
      have s2: "s2 = settleWaitOnChain spec s1 ev stl"
        using h settlement True by (simp add: processEvent_def handleSettlement_def)
      have k: "count_step 1 s1 s2" "keeps_queue s1 s2"
        using settleWaitOnChain_count[OF settlement(3), of spec stl] s2 by simp_all
      show ?thesis using eq ad c1 pp f pend wf1 settlement True k
        by (auto simp: conservation_inv_def count_step_def pending_settlements_def queue_wf_def
              purchases_popped_def keeps_queue_def)
    qed
  qed
qed

lemma conservation_init:
  assumes "initialState spec baseSeed runIndex = Some st0"
  shows "conservation_inv spec st0"
  using initialState_Some[OF assms] initialState_facts(3)[OF assms]
  by (auto simp: conservation_inv_def decided_def skipped_def purchases_popped_def
        pending_settlements_def queue_wf_def filter_empty_conv)

lemma conservation_reaches:
  assumes "initialState spec baseSeed runIndex = Some st0" "reaches spec st0 st"
  shows "conservation_inv spec st"
  using assms(2) conservation_init[OF assms(1)] conservation_step
  by (rule reaches_invariant)

text \<open>
  C2, as stated: at the end of a run approvals + declines + timeouts is the number of
  purchases popped, less the attempts skipped for insufficient funds, less the fraud
  attempts declined before any latency was drawn.  In the run below the one purchase is
  such a fraud attempt; it is pushed on \<open>declines\<close>, so the left side is 1 and the
  right side is 0.  The counts are: decided, purchases popped, skipped, declined at once.
\<close>

theorem conservation_counterexample:
  "map_option attempt_counts (finalState all_fraud_spec ''s'' 0) = Some (1, 1, 0, 1)
   \<and> (1::nat) \<noteq> 1 - 0 - 1"
  using run_all_fraud
  by (auto simp: attempt_counts_def decided_def purchases_popped_def skipped_def first_purchase_def)

text \<open>
  C2, amended: at the end of a run approvals + declines + timeouts is the number of
  purchases popped less the attempts skipped for lack of funds (dropped when nothing is
  available, or counted in \<open>insufficientFundsSkipped\<close>); the fraud attempts
  declined before any latency was drawn are among the declines.
\<close>

theorem conservation:
  assumes "finalState spec baseSeed runIndex = Some st"
  shows "decided st + skipped st = purchases_popped st \<and> autoDeclined st \<le> length (declines st)"
proof -
  from finalState_reaches[OF assms] obtain st0 where
    "initialState spec baseSeed runIndex = Some st0" "reaches spec st0 st" and e: "events st = []"
    by blast
  then have "conservation_inv spec st" using conservation_reaches by blast
  then show ?thesis using e by (auto simp: conservation_inv_def pending_settlements_def split: if_splits)
qed

theorem conservation_witness:
  "\<exists>st. finalState all_fraud_spec ''s'' 0 = Some st
     \<and> attempt_counts st = (1, 1, 0, 1) \<and> length (declines st) = 1
     \<and> decided st + skipped st = purchases_popped st \<and> autoDeclined st \<le> length (declines st)"
proof -
  from run_all_fraud obtain st where
    r: "finalState all_fraud_spec ''s'' 0 = Some st"
       "popped st = [first_purchase]" "approvals st = []" "declines st = [0]" "timeouts st = []"
       "skippedUnavailable st = 0" "insufficientFundsSkipped st = 0" "autoDeclined st = 1"
    by blast
  have "attempt_counts st = (1, 1, 0, 1)" "length (declines st) = 1"
    using r by (simp_all add: attempt_counts_def decided_def purchases_popped_def skipped_def
          first_purchase_def)
  then show ?thesis using conservation[OF r(1)] r(1) by blast
qed


section \<open>Hold totals in exact arithmetic\<close>

text \<open>
  The bookkeeping of the holds, with the sums and differences of the engine taken exactly:
  the total of a user covers the sum of the holds recorded for the user, and every release
  subtracts the amount of a recorded hold.
\<close>

lemma hold_share_nonneg:
  "(\<And>h. ho = Some h \<Longrightarrow> 0 \<le> hold_amount h) \<Longrightarrow> 0 \<le> hold_share u ho"
  by (simp add: hold_share_def split: option.splits)

lemma held_nonneg:
  assumes "\<And>t h. m t = Some h \<Longrightarrow> 0 \<le> hold_amount h"
  shows "0 \<le> held m u"
  unfolding held_def by (rule sum_nonneg) (simp add: hold_share_nonneg assms)

lemma held_remove:
  assumes "finite (dom m)" "m t = Some h"
  shows "held (m(t := None)) u = held m u - hold_share u (Some h)"
proof -
  have t: "t \<in> dom m" using assms(2) by auto
  have "held m u = hold_share u (m t) + (\<Sum>x\<in>dom m - {t}. hold_share u (m x))"
    unfolding held_def using sum.remove[OF assms(1) t] .
  moreover have "held (m(t := None)) u = (\<Sum>x\<in>dom m - {t}. hold_share u (m x))"
    unfolding held_def by (rule sum.cong) auto
  ultimately show ?thesis using assms(2) by simp
qed

lemma held_update:
  assumes "finite (dom m)" "\<And>t h. m t = Some h \<Longrightarrow> 0 \<le> hold_amount h"
  shows "held (m(t \<mapsto> h)) u \<le> held m u + hold_share u (Some h)"
proof -
  have fin: "finite (dom m - {t})" using assms(1) by simp
  have "held (m(t \<mapsto> h)) u = (\<Sum>x\<in>insert t (dom m - {t}). hold_share u ((m(t \<mapsto> h)) x))"
    unfolding held_def by (rule sum.cong) auto
  also have "\<dots> = hold_share u (Some h) + (\<Sum>x\<in>dom m - {t}. hold_share u ((m(t \<mapsto> h)) x))"
    by (subst sum.insert) (use fin in simp_all)
  also have "(\<Sum>x\<in>dom m - {t}. hold_share u ((m(t \<mapsto> h)) x))
           = (\<Sum>x\<in>dom m - {t}. hold_share u (m x))"
    by (rule sum.cong) auto
  also have "(\<Sum>x\<in>dom m - {t}. hold_share u (m x)) \<le> held m u"
    unfolding held_def
    by (rule sum_mono2[OF assms(1)]) (auto intro!: hold_share_nonneg assms(2))
  finally have "held (m(t \<mapsto> h)) u \<le> hold_share u (Some h) + held m u" by linarith
  then show ?thesis by linarith
qed


lemma approvePurchase_holds:
  assumes "approvePurchase spec st ev amount fr doneAt authT = Some st'" "0 \<le> amount"
  shows "pushes_for ev st st'
     \<and> (keeps_holds st st' \<or> places_hold (ev_userId ev) (ev_txnId ev) st st')"
proof -
  let ?st4 = "placeHold spec (recordApproval spec st ev amount fr authT) ev amount fr doneAt"
  have e4: "\<forall>e\<in>set (events ?st4). e \<in> set (events st)
        \<or> (ev_userId e = ev_userId ev \<and> ev_txnId e = ev_txnId ev \<and> ev_type e \<noteq> purchase)"
    by (auto simp: placeHold_events)
  have h4: "keeps_holds st ?st4 \<or> places_hold (ev_userId ev) (ev_txnId ev) st ?st4"
  proof (cases "holds_enabled (holds spec)")
    case True
    have "places_hold (ev_userId ev) (ev_txnId ev) st ?st4"
      unfolding places_hold_def
      by (rule exI[of _ amount], rule conjI[OF assms(2)], rule exI[of _ doneAt])
         (simp add: placeHold_def Let_def True)
    then show ?thesis ..
  next
    case False
    then show ?thesis by (simp add: placeHold_def keeps_holds_def)
  qed
  have "pushes_for ev ?st4 st'"
    and "holdTotals st' = holdTotals ?st4" "holdByTxn st' = holdByTxn ?st4"
    using assms(1)
    by (auto simp: approvePurchase_def Let_def pushes_for_def split: option.splits if_splits)
  then show ?thesis using e4 h4
    by (auto simp: pushes_for_def keeps_holds_def places_hold_def)
qed


lemma authorizePurchase_holds:
  assumes a: "authorizePurchase spec st ev amount fr = Some st'" and nn: "0 \<le> amount"
  shows "pushes_for ev st st'
     \<and> (keeps_holds st st' \<or> places_hold (ev_userId ev) (ev_txnId ev) st st')"
proof -
  from a obtain legs g1 processingMs g2 where
    s1: "sampleNetworkLegs (rng_state st) (networkLatency spec) = Some (legs, g1)"
    and s2: "sampleDistribution g1 (issuerProcessing spec) = Some (processingMs, g2)"
    by (auto simp: authorizePurchase_def Let_def split: option.splits)
  show ?thesis
  proof (cases "mode spec = wait_on_chain")
    case True
    then show ?thesis using a s1 s2
      by (auto simp: authorizePurchase_def Let_def pushes_for_def keeps_holds_def
            split: option.splits)
  next
    case False
    have "pushes_for ev st st'
        \<and> (keeps_holds st st' \<or> places_hold (ev_userId ev) (ev_txnId ev) st st')"
      if "approvePurchase spec (st\<lparr> rng_state := g2 \<rparr>) ev amount fr d t = Some st'" for d t
      using approvePurchase_holds[OF that nn]
      by (simp add: pushes_for_def keeps_holds_def places_hold_def)
    then show ?thesis using a s1 s2 False
      by (auto simp: authorizePurchase_def Let_def pushes_for_def keeps_holds_def
            split: if_splits)
  qed
qed

lemma handlePurchase_cases:
  assumes h: "handlePurchase spec st ev = Some st'"
  obtains (skip) "st' = st\<lparr> skippedUnavailable := skippedUnavailable st + 1 \<rparr>"
    | (auto_decline) g k sr where
        "st' = st\<lparr> rng_state := g, fraudAttempts := k, declines := declines st @ [ev_txnId ev],
                      series := sr, autoDeclined := autoDeclined st + 1 \<rparr>"
    | (authorize) g k multiplier fr where "0 \<le> multiplier"
        "authorizePurchase spec (st\<lparr> rng_state := g, fraudAttempts := k \<rparr>) ev
           (ev_amount ev * multiplier) fr = Some st'"
proof (cases "balances st ! ev_userId ev - holdTotals st ! ev_userId ev \<le> 0")
  case True
  then have "st' = st\<lparr> skippedUnavailable := skippedUnavailable st + 1 \<rparr>"
    using h by (simp add: handlePurchase_def Let_def)
  then show ?thesis by (rule skip)
next
  case False
  obtain fr g1 where fd: "(if fraud_enabled (fraud spec)
               then (case draw (rng_state st) of (r, g1) \<Rightarrow> (r < fraudAttemptRate (fraud spec), g1))
               else (False, rng_state st)) = (fr, g1)"
    by (cases "(if fraud_enabled (fraud spec)
               then (case draw (rng_state st) of (r, g1) \<Rightarrow> (r < fraudAttemptRate (fraud spec), g1))
               else (False, rng_state st))")
  show ?thesis
  proof (cases fr)
    case False
    have "authorizePurchase spec (st\<lparr> rng_state := g1 \<rparr>) ev (ev_amount ev) False = Some st'"
      using h \<open>\<not> balances st ! ev_userId ev - holdTotals st ! ev_userId ev \<le> 0\<close> False
      unfolding handlePurchase_def Let_def fd by simp
    then have "authorizePurchase spec (st\<lparr> rng_state := g1, fraudAttempts := fraudAttempts st \<rparr>)
                 ev (ev_amount ev * 1) False = Some st'"
      by simp
    then show ?thesis by (rule authorize[rotated]) simp
  next
    case True
    from h \<open>\<not> balances st ! ev_userId ev - holdTotals st ! ev_userId ev \<le> 0\<close> True
    obtain multiplier g2 where sd: "sampleDistribution g1
                       \<lparr> dtype = lognormal, mean = fraudAmountMultiplierMean (fraud spec),
                         p95 = fraudAmountMultiplierP95 (fraud spec) \<rparr> = Some (multiplier, g2)"
      unfolding handlePurchase_def Let_def fd by (auto split: option.splits)
    have m: "0 \<le> multiplier" using sampleDistribution_later[OF sd] by simp
    obtain r g3 where dr: "draw g2 = (r, g3)" by (cases "draw g2")
    show ?thesis
    proof (cases "r < autoDeclineRate (fraud spec)")
      case True
      have "st' = st\<lparr> rng_state := g3,
                                   fraudAttempts := fraudAttempts st + 1,
                                   declines := declines st @ [ev_txnId ev],
                                   series := addTimeSeriesPoint (series st) (binSize spec)
                                               (ev_timeSec ev) key_declines,
                                   autoDeclined := autoDeclined st + 1 \<rparr>"
        using h \<open>\<not> balances st ! ev_userId ev - holdTotals st ! ev_userId ev \<le> 0\<close> \<open>fr\<close> True
        unfolding handlePurchase_def Let_def fd by (simp add: sd dr)
      then show ?thesis by (rule auto_decline)
    next
      case False
      have "authorizePurchase spec (st\<lparr> rng_state := g3, fraudAttempts := fraudAttempts st + 1 \<rparr>)
              ev (ev_amount ev * multiplier) True = Some st'"
        using h \<open>\<not> balances st ! ev_userId ev - holdTotals st ! ev_userId ev \<le> 0\<close> \<open>fr\<close> False
        unfolding handlePurchase_def Let_def fd by (simp add: sd dr)
      then show ?thesis by (rule authorize[OF m])
    qed
  qed
qed

lemma handlePurchase_holds:
  assumes h: "handlePurchase spec st ev = Some st'" and nn: "0 \<le> ev_amount ev"
  shows "pushes_for ev st st'
     \<and> (keeps_holds st st' \<or> places_hold (ev_userId ev) (ev_txnId ev) st st')"
  using h
proof (cases rule: handlePurchase_cases)
  case skip
  then show ?thesis by (simp add: pushes_for_def keeps_holds_def)
next
  case (auto_decline g k sr)
  then show ?thesis by (simp add: pushes_for_def keeps_holds_def)
next
  case (authorize g k multiplier fr)
  have "0 \<le> ev_amount ev * multiplier" using nn authorize(1) by simp
  from authorizePurchase_holds[OF authorize(2) this] show ?thesis
    by (simp add: pushes_for_def keeps_holds_def places_hold_def)
qed

lemma incrementalAuth_holds:
  "keeps_holds st (incrementalAuth spec st ev) \<or> raises_total (ev_userId ev) st (incrementalAuth spec st ev)"
proof -
  let ?delta = "ev_amount ev - (case relatedAmount ev of None \<Rightarrow> ev_amount ev | Some a \<Rightarrow> a)"
  show ?thesis
  proof (cases "holdTotals (incrementalAuth spec st ev) = holdTotals st")
    case True
    then show ?thesis by (simp add: keeps_holds_def)
  next
    case False
    then have "0 \<le> ?delta
       \<and> holdTotals (incrementalAuth spec st ev)
           = (holdTotals st)[ev_userId ev := holdTotals st ! ev_userId ev + ?delta]"
      by (auto simp: incrementalAuth_def Let_def split: if_splits)
    then have "raises_total (ev_userId ev) st (incrementalAuth spec st ev)"
      unfolding raises_total_def by (intro exI[of _ ?delta]) simp
    then show ?thesis ..
  qed
qed

lemma handleCompletion_holds:
  assumes "handleCompletion spec st ev = Some st'"
  shows "pushes_for ev st st' \<and> (keeps_holds st st' \<or> raises_total (ev_userId ev) st st')"
proof -
  let ?st3 = "incrementalAuth spec st ev"
  have "pushes_for ev ?st3 st'" "holdTotals st' = holdTotals ?st3" "holdByTxn st' = holdByTxn ?st3"
    using assms by (auto simp: handleCompletion_def Let_def pushes_for_def split: option.splits)
  then show ?thesis using incrementalAuth_holds[of st spec ev]
    by (auto simp: pushes_for_def keeps_holds_def raises_total_def)
qed

lemma handleHoldExpiry_holds:
  "events (handleHoldExpiry st ev) = events st
   \<and> (keeps_holds st (handleHoldExpiry st ev)
      \<or> (\<exists>h. holdByTxn st (ev_txnId ev) = Some h
             \<and> releases_hold (hold_userId h) (ev_txnId ev) st (handleHoldExpiry st ev)))"
  by (cases "holdByTxn st (ev_txnId ev)")
     (simp_all add: handleHoldExpiry_def Let_def keeps_holds_def releases_hold_def)

lemma handleSettlement_holds:
  "events (handleSettlement spec st ev) = events st
   \<and> (keeps_holds st (handleSettlement spec st ev)
      \<or> releases_hold (ev_userId ev) (ev_txnId ev) st (handleSettlement spec st ev))"
proof (cases "ev_settlement ev")
  case None
  then show ?thesis by (simp add: handleSettlement_def keeps_holds_def)
next
  case (Some stl)
  show ?thesis
  proof (cases "mode spec = wait_on_chain")
    case True
    then show ?thesis using Some
      by (simp add: handleSettlement_def settleWaitOnChain_def Let_def keeps_holds_def
            split: option.splits)
  next
    case False
    then show ?thesis using Some
      by (cases "holdByTxn st (ev_txnId ev)")
         (simp_all add: handleSettlement_def settleOffchain_def Let_def keeps_holds_def
            releases_hold_def)
  qed
qed


lemma hold_inv_effect:
  assumes inv: "hold_inv spec own st"
    and evs: "\<forall>e\<in>set (events st'). ev_userId e = own (ev_txnId e)
                \<and> (ev_type e = purchase \<longrightarrow> 0 \<le> ev_amount e)"
    and eff: "keeps_holds st st' \<or> raises_total u st st'
              \<or> (places_hold u t st st' \<and> own t = u)
              \<or> (releases_hold u t st st' \<and> (\<forall>h. holdByTxn st t = Some h \<longrightarrow> hold_userId h = u))"
  shows "hold_inv spec own st'"
proof -
  let ?n = "users (userModel spec)"
  have len: "length (holdTotals st) = ?n" and fin: "finite (dom (holdByTxn st))"
    and hs: "\<And>t h. holdByTxn st t = Some h \<Longrightarrow> 0 \<le> hold_amount h \<and> hold_userId h = own t"
    and cov: "\<And>v. v < ?n \<Longrightarrow> held (holdByTxn st) v \<le> holdTotals st ! v"
    using inv by (auto simp: hold_inv_def)
  have nn: "\<And>t h. holdByTxn st t = Some h \<Longrightarrow> 0 \<le> hold_amount h" using hs by blast
  from eff consider (keep) "keeps_holds st st'" | (raise) "raises_total u st st'"
    | (place) "places_hold u t st st'" "own t = u"
    | (release) "releases_hold u t st st'" "\<forall>h. holdByTxn st t = Some h \<longrightarrow> hold_userId h = u"
    by blast
  then show ?thesis
  proof cases
    case keep
    then show ?thesis using inv evs by (simp add: hold_inv_def keeps_holds_def)
  next
    case raise
    then obtain a where a: "0 \<le> a"
      "holdTotals st' = (holdTotals st)[u := holdTotals st ! u + a]" "holdByTxn st' = holdByTxn st"
      by (auto simp: raises_total_def)
    have "held (holdByTxn st') v \<le> holdTotals st' ! v" if "v < ?n" for v
      using cov[OF that] a that len by (cases "v = u") simp_all
    then show ?thesis using inv evs a by (simp add: hold_inv_def)
  next
    case place
    then obtain a tm where a: "0 \<le> a"
      "holdTotals st' = (holdTotals st)[u := holdTotals st ! u + a]"
      "holdByTxn st' = (holdByTxn st)(t \<mapsto> \<lparr> hold_userId = u, hold_amount = a, approvalTime = tm \<rparr>)"
      by (auto simp: places_hold_def)
    let ?h = "\<lparr> hold_userId = u, hold_amount = a, approvalTime = tm \<rparr>"
    have "held (holdByTxn st') v \<le> holdTotals st' ! v" if "v < ?n" for v
    proof -
      have "held (holdByTxn st') v \<le> held (holdByTxn st) v + hold_share v (Some ?h)"
        unfolding a(3) by (rule held_update[OF fin nn])
      also have "\<dots> \<le> holdTotals st ! v + hold_share v (Some ?h)"
        using cov[OF that] by simp
      also have "\<dots> = holdTotals st' ! v"
        using a that len by (cases "v = u") (simp_all add: hold_share_def)
      finally show ?thesis .
    qed
    moreover have "\<forall>t' h. holdByTxn st' t' = Some h \<longrightarrow> 0 \<le> hold_amount h \<and> hold_userId h = own t'"
      using hs a place(2) by auto
    moreover have "finite (dom (holdByTxn st'))" using fin a by simp
    ultimately show ?thesis using evs a len by (simp add: hold_inv_def)
  next
    case release
    then obtain h where h: "holdByTxn st t = Some h"
      "holdTotals st' = (holdTotals st)[u := holdTotals st ! u - hold_amount h]"
      "holdByTxn st' = (holdByTxn st)(t := None)"
      by (auto simp: releases_hold_def)
    have u: "hold_userId h = u" using release(2) h(1) by simp
    have "held (holdByTxn st') v \<le> holdTotals st' ! v" if "v < ?n" for v
    proof -
      have "held (holdByTxn st') v = held (holdByTxn st) v - hold_share v (Some h)"
        unfolding h(3) by (rule held_remove[OF fin h(1)])
      also have "\<dots> \<le> holdTotals st ! v - hold_share v (Some h)"
        using cov[OF that] by simp
      also have "\<dots> = holdTotals st' ! v"
        using h u that len by (cases "v = u") (auto simp: hold_share_def)
      finally show ?thesis .
    qed
    moreover have "\<forall>t' h. holdByTxn st' t' = Some h \<longrightarrow> 0 \<le> hold_amount h \<and> hold_userId h = own t'"
      using hs h by (auto split: if_splits)
    moreover have "finite (dom (holdByTxn st'))" using fin h by simp
    ultimately show ?thesis using evs h len by (simp add: hold_inv_def)
  qed
qed

lemma hold_inv_step:
  assumes inv: "hold_inv spec own s" and p: "popEvent s = Some (ev, s1)"
    and h: "processEvent spec s1 ev = Some s2"
  shows "hold_inv spec own s2"
proof -
  note f = popEvent_fields[OF p]
  have evq: "ev \<in> set (events s)" and sub: "set (events s1) \<subseteq> set (events s)"
    using f(1) by auto
  have ok: "\<forall>e\<in>set (events s). ev_userId e = own (ev_txnId e)
                \<and> (ev_type e = purchase \<longrightarrow> 0 \<le> ev_amount e)"
    and hs: "\<And>t h. holdByTxn s t = Some h \<Longrightarrow> hold_userId h = own t"
    using inv by (auto simp: hold_inv_def)
  have own: "ev_userId ev = own (ev_txnId ev)" using ok evq by blast
  have inv1: "hold_inv spec own s1"
    using inv sub f by (auto simp: hold_inv_def)
  have pushed: "\<forall>e\<in>set (events s2). ev_userId e = own (ev_txnId e)
                \<and> (ev_type e = purchase \<longrightarrow> 0 \<le> ev_amount e)"
    if pf: "pushes_for ev s1 s2"
  proof
    fix e assume "e \<in> set (events s2)"
    then consider "e \<in> set (events s1)"
      | "ev_userId e = ev_userId ev \<and> ev_txnId e = ev_txnId ev \<and> ev_type e \<noteq> purchase"
      using pf by (auto simp: pushes_for_def)
    then show "ev_userId e = own (ev_txnId e) \<and> (ev_type e = purchase \<longrightarrow> 0 \<le> ev_amount e)"
    proof cases
      case 1
      then show ?thesis using ok sub by blast
    next
      case 2
      then show ?thesis using own by simp
    qed
  qed
  have same: "\<forall>e\<in>set (events s2). ev_userId e = own (ev_txnId e)
                \<and> (ev_type e = purchase \<longrightarrow> 0 \<le> ev_amount e)"
    if "events s2 = events s1"
    using that ok sub by auto
  show ?thesis
  proof (cases "ev_type ev")
    case purchase
    then have hp: "handlePurchase spec s1 ev = Some s2" and nn: "0 \<le> ev_amount ev"
      using h ok evq by (simp_all add: processEvent_def)
    from handlePurchase_holds[OF hp nn] have pf: "pushes_for ev s1 s2"
      and eff: "keeps_holds s1 s2 \<or> places_hold (ev_userId ev) (ev_txnId ev) s1 s2"
      by simp_all
    have "keeps_holds s1 s2 \<or> raises_total (ev_userId ev) s1 s2
              \<or> (places_hold (ev_userId ev) (ev_txnId ev) s1 s2 \<and> own (ev_txnId ev) = ev_userId ev)
              \<or> (releases_hold (ev_userId ev) (ev_txnId ev) s1 s2
                  \<and> (\<forall>h. holdByTxn s1 (ev_txnId ev) = Some h \<longrightarrow> hold_userId h = ev_userId ev))"
      using eff own by auto
    with inv1 pushed[OF pf] show ?thesis by (rule hold_inv_effect)
  next
    case completion
    then have hc: "handleCompletion spec s1 ev = Some s2"
      using h by (simp add: processEvent_def)
    from handleCompletion_holds[OF hc] have pf: "pushes_for ev s1 s2"
      and eff: "keeps_holds s1 s2 \<or> raises_total (ev_userId ev) s1 s2"
      by simp_all
    have "keeps_holds s1 s2 \<or> raises_total (ev_userId ev) s1 s2
              \<or> (places_hold (ev_userId ev) (ev_txnId ev) s1 s2 \<and> own (ev_txnId ev) = ev_userId ev)
              \<or> (releases_hold (ev_userId ev) (ev_txnId ev) s1 s2
                  \<and> (\<forall>h. holdByTxn s1 (ev_txnId ev) = Some h \<longrightarrow> hold_userId h = ev_userId ev))"
      using eff by auto
    with inv1 pushed[OF pf] show ?thesis by (rule hold_inv_effect)
  next
    case hold_expiry
    then have s2: "s2 = handleHoldExpiry s1 ev" using h by (simp add: processEvent_def)
    have es: "events s2 = events s1" using handleHoldExpiry_holds[of s1 ev] s2 by simp
    from handleHoldExpiry_holds[of s1 ev]
    consider "keeps_holds s1 s2"
      | hd where "holdByTxn s1 (ev_txnId ev) = Some hd" "releases_hold (hold_userId hd) (ev_txnId ev) s1 s2"
      unfolding s2 by blast
    then show ?thesis
    proof cases
      case 1
      then have "keeps_holds s1 s2 \<or> raises_total 0 s1 s2
              \<or> (places_hold 0 0 s1 s2 \<and> own 0 = 0)
              \<or> (releases_hold 0 0 s1 s2 \<and> (\<forall>h. holdByTxn s1 0 = Some h \<longrightarrow> hold_userId h = 0))"
        by simp
      with inv1 same[OF es] show ?thesis by (rule hold_inv_effect)
    next
      case 2
      then have "keeps_holds s1 s2 \<or> raises_total (hold_userId hd) s1 s2
              \<or> (places_hold (hold_userId hd) (ev_txnId ev) s1 s2 \<and> own (ev_txnId ev) = hold_userId hd)
              \<or> (releases_hold (hold_userId hd) (ev_txnId ev) s1 s2
                  \<and> (\<forall>h. holdByTxn s1 (ev_txnId ev) = Some h \<longrightarrow> hold_userId h = hold_userId hd))"
        by simp
      with inv1 same[OF es] show ?thesis by (rule hold_inv_effect)
    qed
  next
    case settlement
    then have s2: "s2 = handleSettlement spec s1 ev" using h by (simp add: processEvent_def)
    have es: "events s2 = events s1" using handleSettlement_holds[of spec s1 ev] s2 by simp
    have o: "\<forall>hd. holdByTxn s1 (ev_txnId ev) = Some hd \<longrightarrow> hold_userId hd = ev_userId ev"
      using hs own f by simp
    have "keeps_holds s1 s2 \<or> raises_total (ev_userId ev) s1 s2
              \<or> (places_hold (ev_userId ev) (ev_txnId ev) s1 s2 \<and> own (ev_txnId ev) = ev_userId ev)
              \<or> (releases_hold (ev_userId ev) (ev_txnId ev) s1 s2
                  \<and> (\<forall>h. holdByTxn s1 (ev_txnId ev) = Some h \<longrightarrow> hold_userId h = ev_userId ev))"
      using handleSettlement_holds[of spec s1 ev] s2 o by auto
    with inv1 same[OF es] show ?thesis by (rule hold_inv_effect)
  qed
qed

lemma held_empty [simp]: "held Map.empty u = 0"
  by (simp add: held_def)

lemma hold_inv_init:
  assumes "initialState spec baseSeed runIndex = Some st0"
  shows "\<exists>own. hold_inv spec own st0"
proof -
  from initialState_facts(3)[OF assms] obtain own where
    "\<forall>e\<in>set (events st0). ev_type e = purchase \<and> ev_userId e < users (userModel spec)
        \<and> 0 \<le> ev_amount e \<and> own (ev_txnId e) = ev_userId e" by blast
  then have "hold_inv spec own st0"
    using initialState_Some[OF assms] by (auto simp: hold_inv_def)
  then show ?thesis by blast
qed

text \<open>
  With exact sums and differences the hold total of every user is non-negative at every
  point of a run.
\<close>

lemma hold_totals_exact:
  assumes "initialState spec baseSeed runIndex = Some st0"
    and "reaches spec st0 st"
    and "u < users (userModel spec)"
  shows "0 \<le> holdTotals st ! u"
proof -
  from hold_inv_init[OF assms(1)] obtain own where i: "hold_inv spec own st0" ..
  have inv: "hold_inv spec own st"
    using assms(2) i hold_inv_step by (rule reaches_invariant)
  have "0 \<le> held (holdByTxn st) u"
    using inv by (intro held_nonneg) (auto simp: hold_inv_def)
  also have "\<dots> \<le> holdTotals st ! u"
    using inv assms(3) by (simp add: hold_inv_def)
  finally show ?thesis .
qed

text \<open>
  On C4.  The source computes the totals in doubles: \<open>holdTotals[u] += amount\<close> when a hold
  is placed and \<open>holdTotals[u] -= hold.amount\<close> when it is released, each rounded, and the
  total is not clamped (the hold count beside it is, by \<open>Math.max(0, ...)\<close>).  Two holds
  of \<open>0.3\<close> and \<open>0.6\<close> of one user, placed one after the other and released in that order,
  leave the total \<open>-2^-53\<close>, about \<open>-1.1e-16\<close>: the sum \<open>0.3 + 0.6\<close> is a tie and rounds
  down to \<open>0.8999999999999999\<close>, and so does the difference after the first release.  The
  non-negativity of the lemma above is a fact of the exact bookkeeping and not of the
  doubles.
\<close>

lemma hold_arithmetic_roundoff:
  "to_double (to_double (to_double (to_double (0 + 5404319552844595 / 2 ^ 54)
       + 5404319552844595 / 2 ^ 53) - 5404319552844595 / 2 ^ 54) - 5404319552844595 / 2 ^ 53)
     = - 1 / 2 ^ 53"
proof -
  have a: "to_double (5404319552844595 / 2 ^ 54) = 5404319552844595 / 2 ^ 54"
    by (subst to_double_eval[where k = "- 2"]) (simp_all add: powr_neg_numeral round_half_even_def)
  have b: "to_double (5404319552844595 / 2 ^ 54 + 5404319552844595 / 2 ^ 53) = 8106479329266892 / 2 ^ 53"
    by (subst to_double_eval[where k = "- 1"]) (simp_all add: powr_neg_numeral round_half_even_def)
  have c: "to_double (8106479329266892 / 2 ^ 53 - 5404319552844595 / 2 ^ 54) = 5404319552844594 / 2 ^ 53"
    by (subst to_double_eval[where k = "- 1"]) (simp_all add: powr_neg_numeral round_half_even_def)
  have d: "to_double (5404319552844594 / 2 ^ 53 - 5404319552844595 / 2 ^ 53) = - 1 / 2 ^ 53"
    by (subst to_double_eval[where k = "- 53"]) (simp_all add: powr_neg_numeral round_half_even_def)
  show ?thesis by (simp only: add_0 a b c d)
qed


section \<open>Batches of runs\<close>

lemma runs_loop_acc:
  "runSimulationRuns_loop spec s i n acc
     = map_option ((@) acc) (runSimulationRuns_loop spec s i n [])"
proof (induction n arbitrary: i acc)
  case 0
  then show ?case by simp
next
  case (Suc n)
  show ?case
  proof (cases "simulateOnce spec (seed spec) (s + i)")
    case None
    then show ?thesis by simp
  next
    case (Some r)
    show ?thesis
      using Some Suc.IH[of "i + 1" "acc @ [r]"] Suc.IH[of "i + 1" "[r]"]
      by (cases "runSimulationRuns_loop spec s (i + 1) n []") simp_all
  qed
qed

lemma runs_loop_shift:
  "runSimulationRuns_loop spec s (i + j) n acc = runSimulationRuns_loop spec (s + j) i n acc"
proof (induction n arbitrary: i acc)
  case 0
  then show ?case by simp
next
  case (Suc n)
  have "s + (i + j) = s + j + i" by simp
  then show ?case using Suc.IH[of "i + 1"] by (simp only: runSimulationRuns_loop.simps add.assoc[of i 1 j] add.commute[of 1 j] add.assoc[symmetric, of i j 1])
qed

lemma runs_loop_split:
  "runSimulationRuns_loop spec s i (k + m) []
     = concat_batches (runSimulationRuns_loop spec s i k [])
         (runSimulationRuns_loop spec s (i + k) m [])"
proof (induction k arbitrary: i)
  case 0
  then show ?case by (simp add: concat_batches_def split: option.splits)
next
  case (Suc k)
  show ?case
  proof (cases "simulateOnce spec (seed spec) (s + i)")
    case None
    then show ?thesis by (simp add: concat_batches_def)
  next
    case (Some r)
    have a: "runSimulationRuns_loop spec s i (Suc k + m) []
          = map_option ((@) [r]) (runSimulationRuns_loop spec s (i + 1) (k + m) [])"
      using Some runs_loop_acc[of spec s "i + 1" "k + m" "[r]"] by simp
    have b: "runSimulationRuns_loop spec s i (Suc k) []
          = map_option ((@) [r]) (runSimulationRuns_loop spec s (i + 1) k [])"
      using Some runs_loop_acc[of spec s "i + 1" k "[r]"] by simp
    have c: "i + 1 + k = i + Suc k" by simp
    show ?thesis
      unfolding a b Suc.IH[of "i + 1"] c
      by (simp add: concat_batches_def split: option.splits)
  qed
qed

lemma runs_split:
  assumes "k \<le> n"
  shows "runSimulationRuns spec 0 n
     = concat_batches (runSimulationRuns spec 0 k) (runSimulationRuns spec k (n - k))"
proof -
  have "runSimulationRuns_loop spec 0 0 (k + (n - k)) []
     = concat_batches (runSimulationRuns_loop spec 0 0 k [])
         (runSimulationRuns_loop spec 0 (0 + k) (n - k) [])"
    by (rule runs_loop_split)
  moreover have "runSimulationRuns_loop spec 0 (0 + k) (n - k) []
     = runSimulationRuns_loop spec (0 + k) 0 (n - k) []"
    by (rule runs_loop_shift)
  ultimately show ?thesis using assms by (simp add: runSimulationRuns_def)
qed

lemma empty_run:
  "\<exists>r. simulateOnce no_user_spec ''s'' i = Some r"
proof -
  have u: "users (userModel no_user_spec) = 0"
    by (simp add: no_user_spec_def)
  obtain st0 where i: "initialState no_user_spec ''s'' i = Some st0" and e: "events st0 = []"
    by (simp add: initialState_def u)
  have "popEvent st0 = None" using e by (simp add: popEvent_def)
  then have "eventLoop no_user_spec st0 = Some st0"
    by (subst eventLoop.simps) simp
  then show ?thesis using i by (simp add: simulateOnce_def finalState_def)
qed

text \<open>
  C1: the run set is deterministic and independent of how it is partitioned.  A run is a
  function of the spec, the seed and the run index alone (its generator is seeded from
  the seed and the index, and nothing else is drawn), so two executions agree; and for
  \<open>k \<le> n\<close> the batch of the runs \<open>0, ..., n - 1\<close> is the batch of the runs
  \<open>0, ..., k - 1\<close> followed by the batch of the \<open>n - k\<close> runs from \<open>k\<close> on, so
  aggregating the concatenation gives what aggregating the single batch gives.  A batch
  with a run that does not return does not return either way.
\<close>

theorem partition_independent:
  assumes "k \<le> n"
  shows "runSimulationRuns spec 0 n
           = concat_batches (runSimulationRuns spec 0 k) (runSimulationRuns spec k (n - k))
     \<and> map_option (aggregateRunResults spec) (runSimulationRuns spec 0 n)
           = map_option (aggregateRunResults spec)
               (concat_batches (runSimulationRuns spec 0 k) (runSimulationRuns spec k (n - k)))"
  using runs_split[OF assms] by simp

theorem partition_independent_witness:
  "(1::nat) \<le> 2
   \<and> (\<exists>a b. runSimulationRuns no_user_spec 0 1 = Some [a]
         \<and> runSimulationRuns no_user_spec 1 (2 - 1) = Some [b]
         \<and> runSimulationRuns no_user_spec 0 2 = Some [a, b])
   \<and> map_option (aggregateRunResults no_user_spec) (runSimulationRuns no_user_spec 0 2)
           = map_option (aggregateRunResults no_user_spec)
               (concat_batches (runSimulationRuns no_user_spec 0 1)
                  (runSimulationRuns no_user_spec 1 (2 - 1)))"
proof -
  have s: "seed no_user_spec = ''s''"
    by (simp add: no_user_spec_def one_purchase_spec_def purchase_spec_def)
  obtain a where a: "simulateOnce no_user_spec ''s'' 0 = Some a" using empty_run by blast
  obtain b where b: "simulateOnce no_user_spec ''s'' (Suc 0) = Some b" using empty_run by blast
  have r1: "runSimulationRuns no_user_spec 0 1 = Some [a]"
    by (simp add: runSimulationRuns_def s a numeral_2_eq_2)
  have r2: "runSimulationRuns no_user_spec 1 (2 - 1) = Some [b]"
    by (simp add: runSimulationRuns_def s b)
  have le: "(1::nat) \<le> 2" by simp
  have r3: "runSimulationRuns no_user_spec 0 2 = Some [a, b]"
    using partition_independent[OF le, of no_user_spec] r1 r2 by (simp add: concat_batches_def)
  have ex: "\<exists>a b. runSimulationRuns no_user_spec 0 1 = Some [a]
         \<and> runSimulationRuns no_user_spec 1 (2 - 1) = Some [b]
         \<and> runSimulationRuns no_user_spec 0 2 = Some [a, b]"
    using r1 r2 r3 by blast
  have agg: "map_option (aggregateRunResults no_user_spec) (runSimulationRuns no_user_spec 0 2)
           = map_option (aggregateRunResults no_user_spec)
               (concat_batches (runSimulationRuns no_user_spec 0 1)
                  (runSimulationRuns no_user_spec 1 (2 - 1)))"
    using partition_independent[OF le, of no_user_spec] by (rule conjunct2)
  show ?thesis
    by (rule conjI[OF le conjI[OF ex agg]])
qed

end
